theory Spec2Isabelle
  imports Main "HOL-Library.AList" "HOL-Library.Char_ord" "HOL-Library.List_Lexorder"
begin

section \<open>JavaScript objects on an explicit store\<close>

text \<open>
  The renewer works on usage documents, which are JavaScript objects that hold an array
  of further objects (the entries of \<open>measured_usage\<close>). \<open>zeroUsage\<close> copies
  the top-level object with underscore's \<open>extend({}, usage)\<close> and then assigns to the
  entries, so which objects are shared matters. Objects therefore live in a store: a
  list of objects, the address of an object being its index. An object is the ordered list
  of its own properties. A property holds a number, a string, or an array of references to
  objects. Numbers are integers here (timestamps in milliseconds, counts and quantities);
  the code only copies quantities or overwrites them with 0.
\<close>

type_synonym addr = nat

datatype jsval = JNum int | JStr string | JArr "addr list"

type_synonym obj = "(string \<times> jsval) list"

type_synonym heap = "obj list"

datatype js_error = TypeError

definition deref :: "heap \<Rightarrow> addr \<Rightarrow> obj option" where
  "deref h a = (if a < length h then Some (h ! a) else None)"

text \<open>\<open>o.p\<close>: the value of an own property, \<open>None\<close> for \<open>undefined\<close>.\<close>

definition getProp :: "heap \<Rightarrow> addr \<Rightarrow> string \<Rightarrow> jsval option" where
  "getProp h a p = (case deref h a of None \<Rightarrow> None | Some ob \<Rightarrow> map_of ob p)"

text \<open>\<open>s.startsWith(p)\<close> of the JavaScript string type.\<close>

definition startsWith :: "string \<Rightarrow> string \<Rightarrow> bool" where
  "startsWith s p = (take (length p) s = p)"

subsection \<open>zeroUsage and refreshUsage (lib/cf/renewer/src/index.js)\<close>

text \<open>
  The loop \<open>for (let measureObject of clonedUsage.measured_usage)\<close>: every entry
  whose \<open>measure\<close> starts with \<open>previous\<close> gets \<open>quantity = 0\<close>, assigned to
  the entry object itself. Reading \<open>measure\<close> of an entry that has none, or calling
  \<open>startsWith\<close> on a value that is no string, raises a TypeError.
\<close>

fun zeroLoop :: "heap \<Rightarrow> addr list \<Rightarrow> js_error + heap" where
  "zeroLoop h [] = Inr h"
| "zeroLoop h (r # rs) =
     (case deref h r of
        None \<Rightarrow> Inl TypeError
      | Some measureObject \<Rightarrow>
          (case map_of measureObject ''measure'' of
             Some (JStr m) \<Rightarrow>
               zeroLoop (if startsWith m ''previous''
                         then h[r := AList.update ''quantity'' (JNum 0) measureObject]
                         else h) rs
           | _ \<Rightarrow> Inl TypeError))"

text \<open>
  \<open>zeroUsage\<close>: \<open>extend({}, usage)\<close> allocates a new object with the properties of
  \<open>usage\<close> (the values are copied, so an array property of the copy refers to the same
  entry objects), the loop runs over the copy's \<open>measured_usage\<close>, and the copy is
  returned. \<open>for ... of\<close> over \<open>undefined\<close> or a number raises a TypeError; over a
  string it visits the one-character strings, whose \<open>measure\<close> is undefined, so only
  the empty string passes.
\<close>

definition zeroUsage :: "heap \<Rightarrow> addr \<Rightarrow> js_error + (addr \<times> heap)" where
  "zeroUsage h usage =
     (case deref h usage of
        None \<Rightarrow> Inl TypeError
      | Some u \<Rightarrow>
          (let clonedUsage = length h; h1 = h @ [u] in
           case map_of u ''measured_usage'' of
             Some (JArr ms) \<Rightarrow>
               (case zeroLoop h1 ms of
                  Inl e \<Rightarrow> Inl e
                | Inr h2 \<Rightarrow> Inr (clonedUsage, h2))
           | Some (JStr []) \<Rightarrow> Inr (clonedUsage, h1)
           | _ \<Rightarrow> Inl TypeError))"

text \<open>
  \<open>refreshUsage\<close>: \<open>monthStart\<close> is the value of
  \<open>moment().utc().startOf('month').valueOf()\<close>, the start of the current UTC month in
  epoch milliseconds; moment is a library outside the repository, so the value is a
  parameter. The two assignments go to the argument object, then \<open>zeroUsage\<close> runs.
\<close>

definition refreshUsage :: "int \<Rightarrow> heap \<Rightarrow> addr \<Rightarrow> js_error + (addr \<times> heap)" where
  "refreshUsage monthStart h usage =
     (case deref h usage of
        None \<Rightarrow> Inl TypeError
      | Some u \<Rightarrow>
          zeroUsage
            (h[usage := AList.update ''end'' (JNum monthStart)
                          (AList.update ''start'' (JNum monthStart) u)])
            usage)"

text \<open>
  A usage document as the data model describes it: an object whose \<open>measured_usage\<close>
  is an array of objects with a string \<open>measure\<close>.
\<close>

definition usage_document :: "heap \<Rightarrow> addr \<Rightarrow> bool" where
  "usage_document h a =
     (case getProp h a ''measured_usage'' of
        Some (JArr ms) \<Rightarrow>
          list_all (\<lambda>r. case getProp h r ''measure'' of Some (JStr m) \<Rightarrow> True | _ \<Rightarrow> False) ms
      | _ \<Rightarrow> False)"

text \<open>The entries of a document, read through the store: measure name and quantity.\<close>

definition measured :: "heap \<Rightarrow> addr \<Rightarrow> (jsval option \<times> jsval option) list" where
  "measured h a =
     (case getProp h a ''measured_usage'' of
        Some (JArr ms) \<Rightarrow> map (\<lambda>r. (getProp h r ''measure'', getProp h r ''quantity'')) ms
      | _ \<Rightarrow> [])"

text \<open>
  The addresses of the entries of \<open>measured_usage\<close> of a document, and whether the
  object at an address has a \<open>measure\<close> that starts with \<open>previous\<close>.
\<close>

definition measuredRefs :: "heap \<Rightarrow> addr \<Rightarrow> addr list" where
  "measuredRefs h a =
     (case getProp h a ''measured_usage'' of Some (JArr ms) \<Rightarrow> ms | _ \<Rightarrow> [])"

definition previousMeasure :: "heap \<Rightarrow> addr \<Rightarrow> bool" where
  "previousMeasure h r =
     (case getProp h r ''measure'' of Some (JStr m) \<Rightarrow> startsWith m ''previous'' | _ \<Rightarrow> False)"

text \<open>
  The document of the specification's example: a usage document at address 0 with the
  entries \<open>previous_instances\<close>, quantity 5, and \<open>current_instances\<close>, quantity 2.
\<close>

definition example_store :: heap where
  "example_store =
     [[(''id'', JStr ''U1''), (''start'', JNum 5), (''end'', JNum 9),
       (''measured_usage'', JArr [1, 2])],
      [(''measure'', JStr ''previous_instances''), (''quantity'', JNum 5)],
      [(''measure'', JStr ''current_instances''), (''quantity'', JNum 2)]]"

section \<open>The usage renewer (lib/cf/renewer/src/index.js)\<close>

subsection \<open>Process-wide state\<close>

text \<open>
  An error value of a failed remote call, and the response of the collector: its status
  code and, for a fetched document, the address of the parsed body (\<open>None\<close> when the
  response has no body).
\<close>

datatype error = Error string

record response =
  statusCode :: nat
  body :: "addr option"

type_synonym reply = "error option \<times> response option"

text \<open>
  The first argument of \<open>registerError\<close>, built with \<open>util.format\<close> in the source,
  and the text \<open>registerError\<close> stores: the message alone, or the message with the
  error and the response appended. \<open>NoError\<close> is the initial empty string.
\<close>

datatype message =
    MissingToken
  | FailedGettingUsage "addr option"
  | FailedReportingUsage obj
  | FailedReadingUsage string string nat

datatype error_message =
    NoError
  | Plain message
  | Formatted message "error option" "response option"

text \<open>
  What the cycle's \<open>failure\<close> callback receives as its first argument: the scan error
  itself, \<open>buildError('get', {collector_id: id}, error, response)\<close>, or
  \<open>buildError('report', doc, error, response)\<close>.
\<close>

datatype failure_error =
    ScanError error
  | GetError string "error option" "response option"
  | ReportError "addr option" "error option" "response option"
  | MissingTokenError

text \<open>
  The calls that leave the module, in the order they are made: the range scan of the
  carry-over store, the two requests to the collector, the timer, the two callbacks of the
  cycle, and an exception that nothing catches.
\<close>

datatype call =
    AllDocs string string nat nat
  | HttpGet string
  | HttpPost obj
  | SetTimeout nat
  | FailureCb failure_error "response option"
  | SuccessCb
  | Uncaught js_error

text \<open>
  The module-level objects \<open>statistics\<close> and \<open>errors\<close> in one record:
  \<open>statistics.db.readSuccess\<close> is the field \<open>db_readSuccess\<close>, and so on for the
  groups \<open>db\<close>, \<open>usage\<close>, \<open>plan\<close> and \<open>retries\<close>; the fields of \<open>errors\<close>
  keep their names. \<open>objects\<close> is the store of JavaScript objects and \<open>calls\<close> the
  log of calls made so far. The counters start at 0 and are only incremented or reset, so
  they are natural numbers.
\<close>

record renewer =
  db_readSuccess :: nat
  db_readFailure :: nat
  db_docsRead :: nat
  usage_missingToken :: nat
  usage_getFailures :: nat
  usage_getSuccess :: nat
  usage_reportFailures :: nat
  usage_reportSuccess :: nat
  usage_reportConflict :: nat
  plan_getFailures :: nat
  plan_getSuccess :: nat
  retries_count :: nat
  missingToken :: bool
  noGetEverHappened :: bool
  noReportEverHappened :: bool
  consecutiveGetFailures :: nat
  consecutiveReportFailures :: nat
  lastError :: error_message
  lastErrorTimestamp :: "nat option"
  objects :: heap
  calls :: "call list"

definition initial :: "heap \<Rightarrow> renewer" where
  "initial h =
     \<lparr>db_readSuccess = 0, db_readFailure = 0, db_docsRead = 0,
      usage_missingToken = 0, usage_getFailures = 0, usage_getSuccess = 0,
      usage_reportFailures = 0, usage_reportSuccess = 0, usage_reportConflict = 0,
      plan_getFailures = 0, plan_getSuccess = 0, retries_count = 0,
      missingToken = False, noGetEverHappened = True, noReportEverHappened = True,
      consecutiveGetFailures = 0, consecutiveReportFailures = 0,
      lastError = NoError, lastErrorTimestamp = None,
      objects = h, calls = []\<rparr>"

subsection \<open>What the renewer is given\<close>

text \<open>A row of the carry-over store: its key and the \<open>collector_id\<close> of its document.\<close>

record row =
  key :: string
  collector_id :: string

text \<open>
  The configuration and the outside world of one cycle. \<open>pageSize\<close>,
  \<open>retryInterval\<close> and \<open>secured\<close> are the module constants computed from the
  process environment; \<open>resourceUsageSchemaProperties\<close> is the list of property names
  of the resource usage schema (package abacus-usage-schemas); \<open>now\<close>,
  \<open>monthStart\<close>, \<open>startTime\<close> and \<open>endTime\<close> are the values the clock and moment
  give in \<open>registerError\<close>, \<open>refreshUsage\<close> and \<open>renewUsage\<close>;
  \<open>systemToken\<close> tells whether the token function returns a token. \<open>carryOver\<close> is
  the content of the carry-over store in key order and \<open>allDocsError\<close> the error, if
  any, of the scan issued with a given \<open>skip\<close>. \<open>collectorGet\<close> and
  \<open>collectorPost\<close> are the outcomes \<open>(error, response)\<close> of the reliable requests to
  the collector, for a usage id and for a posted body. The clock and the store do not
  change during the cycle.
\<close>

record env =
  pageSize :: nat
  retryInterval :: nat
  secured :: bool
  systemToken :: bool
  resourceUsageSchemaProperties :: "string list"
  now :: nat
  monthStart :: int
  startTime :: nat
  endTime :: nat
  carryOver :: "row list"
  allDocsError :: "nat \<Rightarrow> error option"
  collectorGet :: "string \<Rightarrow> reply"
  collectorPost :: "obj \<Rightarrow> reply"

text \<open>
  Modelled from the spec: the range scan of the persistent store (package abacus-dbclient),
  \<open>allDocs({startkey, endkey, limit, skip, include_docs})\<close>: the rows whose key lies in
  \<open>[startkey, endkey)\<close> in key order, without the first \<open>skip\<close> of them, at most
  \<open>limit\<close> of them. Keys compare as JavaScript strings do, by code unit.
\<close>

definition inRange :: "string \<Rightarrow> string \<Rightarrow> row list \<Rightarrow> row list" where
  "inRange startkey endkey rs = filter (\<lambda>r. startkey \<le> key r \<and> key r < endkey) rs"

definition allDocs :: "env \<Rightarrow> string \<Rightarrow> string \<Rightarrow> nat \<Rightarrow> nat \<Rightarrow> error + row list" where
  "allDocs e startkey endkey limit skip =
     (case allDocsError e skip of
        Some err \<Rightarrow> Inl err
      | None \<Rightarrow> Inr (take limit (drop skip (inRange startkey endkey (carryOver e)))))"

subsection \<open>registerError, getUsageDoc, sanitizeUsageDoc, reportUsage\<close>

text \<open>
  \<open>registerError(message, error, response, name, time)\<close>. The calls to the debug log
  and to \<open>perf.report\<close> change nothing in this module and are left out, here and below.
\<close>

definition registerError ::
  "env \<Rightarrow> message \<Rightarrow> error option \<Rightarrow> response option \<Rightarrow> renewer \<Rightarrow> renewer" where
  "registerError e msg err resp s =
     (let errorMessage = (if err \<noteq> None \<or> resp \<noteq> None then Formatted msg err resp
                          else Plain msg)
      in s\<lparr>lastError := errorMessage, lastErrorTimestamp := Some (now e)\<rparr>)"

definition called :: "call \<Rightarrow> renewer \<Rightarrow> renewer" where
  "called c s = s\<lparr>calls := calls s @ [c]\<rparr>"

text \<open>
  \<open>getUsageDoc(id, systemToken, cb)\<close>: the result is the argument list
  \<open>(doc, error, response)\<close> of \<open>cb\<close> and the new state.
\<close>

definition getUsageDoc ::
  "env \<Rightarrow> string \<Rightarrow> renewer \<Rightarrow> (addr option \<times> error option \<times> response option) \<times> renewer" where
  "getUsageDoc e ident s =
     (let s1 = called (HttpGet ident) s;
          (err, resp) = collectorGet e ident;
          doc = (case resp of Some r \<Rightarrow> body r | None \<Rightarrow> None)
      in if err = None \<and> (case resp of Some r \<Rightarrow> statusCode r = 200 | None \<Rightarrow> False)
         then ((doc, None, None),
               s1\<lparr>usage_getSuccess := usage_getSuccess s1 + 1,
                   consecutiveGetFailures := 0,
                   noGetEverHappened := False\<rparr>)
         else ((None, err, resp),
               registerError e (FailedGettingUsage doc) err resp
                 (s1\<lparr>usage_getFailures := usage_getFailures s1 + 1,
                      consecutiveGetFailures := consecutiveGetFailures s1 + 1\<rparr>)))"

text \<open>
  \<open>sanitizeUsageDoc\<close> is underscore's \<open>pick(doc, resourceUsageSchemaProperties)\<close>: a
  new object with those of the listed properties that the document has.
\<close>

definition pick :: "obj \<Rightarrow> string list \<Rightarrow> obj" where
  "pick ob ks = List.map_filter (\<lambda>k. map_option (Pair k) (map_of ob k)) ks"

definition sanitizeUsageDoc :: "env \<Rightarrow> heap \<Rightarrow> addr \<Rightarrow> js_error + (addr \<times> heap)" where
  "sanitizeUsageDoc e h doc =
     (case deref h doc of
        None \<Rightarrow> Inl TypeError
      | Some d \<Rightarrow> Inr (length h, h @ [pick d (resourceUsageSchemaProperties e)]))"

text \<open>
  The callback \<open>(error, response) => ...\<close> that \<open>reportUsage\<close> hands to
  \<open>reliableRequest.post\<close>, for the posted body \<open>usage\<close>: the result is the argument
  list \<open>(error, response)\<close> of \<open>cb\<close> (both undefined for \<open>cb()\<close>) and the new
  state.
\<close>

definition reportUsageCallback :: "env \<Rightarrow> obj \<Rightarrow> reply \<Rightarrow> renewer \<Rightarrow> reply \<times> renewer" where
  "reportUsageCallback e usage rep s =
     (case rep of
        (err, resp) \<Rightarrow>
          if err = None \<and> (case resp of Some r \<Rightarrow> statusCode r = 201 | None \<Rightarrow> False)
          then ((None, None),
                s\<lparr>usage_reportSuccess := usage_reportSuccess s + 1,
                   consecutiveReportFailures := 0,
                   noReportEverHappened := False\<rparr>)
          else if err = None \<and> (case resp of Some r \<Rightarrow> statusCode r = 409 | None \<Rightarrow> False)
          then ((None, None),
                s\<lparr>usage_reportConflict := usage_reportConflict s + 1,
                   noReportEverHappened := False\<rparr>)
          else ((err, resp),
                registerError e (FailedReportingUsage usage) err resp
                  (s\<lparr>usage_reportFailures := usage_reportFailures s + 1,
                     consecutiveReportFailures := consecutiveReportFailures s + 1\<rparr>)))"

text \<open>
  \<open>reportUsage(doc, token, cb)\<close>. Reading \<open>doc.id\<close> of an undefined \<open>doc\<close>
  raises a TypeError, and so may \<open>refreshUsage\<close>; an exception leaves the function before
  any request is made. Otherwise the sanitized copy of the refreshed document is posted and
  the callback above runs on the reply.
\<close>

definition reportUsage ::
  "env \<Rightarrow> addr option \<Rightarrow> renewer \<Rightarrow> js_error + (reply \<times> renewer)" where
  "reportUsage e doc s =
     (case doc of
        None \<Rightarrow> Inl TypeError
      | Some d \<Rightarrow>
          (case refreshUsage (monthStart e) (objects s) d of
             Inl ex \<Rightarrow> Inl ex
           | Inr (refreshed, h1) \<Rightarrow>
               (case sanitizeUsageDoc e h1 refreshed of
                  Inl ex \<Rightarrow> Inl ex
                | Inr (usage, h2) \<Rightarrow>
                    Inr (reportUsageCallback e (h2 ! usage) (collectorPost e (h2 ! usage))
                           (called (HttpPost (h2 ! usage)) (s\<lparr>objects := h2\<rparr>))))))"

subsection \<open>renewUsagePage and renewUsage\<close>

text \<open>
  The body of \<open>for (let ref of references)\<close> with its two callbacks, for one
  reference: fetch the document; on \<open>error || response\<close> call \<open>failure\<close> and leave
  the callback; otherwise report it; on \<open>error || response\<close> call \<open>failure\<close> and
  leave; otherwise \<open>countReportedDocs\<close> adds one to \<open>numDocs\<close>. The requests of a page
  are in flight together and their callbacks run one at a time in the order the replies
  arrive; the loop below runs the callbacks of a page in the order of the page. A failing
  record does not stop the records after it. An exception in a callback is caught by
  nothing and ends the run, in the state before the report that raised it.
\<close>

fun renewDocs ::
  "env \<Rightarrow> string list \<Rightarrow> nat \<Rightarrow> renewer \<Rightarrow> (js_error \<times> renewer) + (nat \<times> renewer)" where
  "renewDocs e [] numDocs s = Inr (numDocs, s)"
| "renewDocs e (ident # refs) numDocs s =
     (case getUsageDoc e ident s of
        ((doc, err, resp), s1) \<Rightarrow>
          if err \<noteq> None \<or> resp \<noteq> None
          then renewDocs e refs numDocs (called (FailureCb (GetError ident err resp) resp) s1)
          else (case reportUsage e doc s1 of
                  Inl ex \<Rightarrow> Inl (ex, s1)
                | Inr ((err2, resp2), s2) \<Rightarrow>
                    if err2 \<noteq> None \<or> resp2 \<noteq> None
                    then renewDocs e refs numDocs
                           (called (FailureCb (ReportError doc err2 resp2) resp2) s2)
                    else renewDocs e refs (numDocs + 1) s2))"

text \<open>
  \<open>renewUsagePage(systemToken, startId, endId, skip, {failure, success})\<close>. After a
  failed scan the callback calls \<open>failure(error, usage)\<close> and goes on, with \<open>usage\<close>
  undefined: \<open>extractUsageDocs\<close> maps it to the empty list and \<open>usage.length\<close> raises
  a TypeError. After a page, \<open>countReportedDocs\<close> has reached the length of the page
  only if every record was reported; then a short page ends the scan with \<open>success\<close> and
  a full page is followed by the next one, \<open>skip + numDocs\<close>.
\<close>

function renewUsagePage :: "env \<Rightarrow> string \<Rightarrow> string \<Rightarrow> nat \<Rightarrow> renewer \<Rightarrow> renewer" where
  "renewUsagePage e startId endId skip s =
     (let s0 = called (AllDocs startId endId (pageSize e) skip) s in
      case allDocs e startId endId (pageSize e) skip of
        Inl err \<Rightarrow>
          called (Uncaught TypeError)
            (called (FailureCb (ScanError err) None)
               (registerError e (FailedReadingUsage startId endId (pageSize e)) (Some err) None
                  (s0\<lparr>db_readFailure := db_readFailure s0 + 1\<rparr>)))
      | Inr usage \<Rightarrow>
          (let s1 = s0\<lparr>db_docsRead := db_docsRead s0 + length usage,
                       db_readSuccess := db_readSuccess s0 + 1\<rparr>
           in if length usage = 0 then called SuccessCb s1
              else (case renewDocs e (map collector_id usage) 0 s1 of
                      Inl (ex, s2) \<Rightarrow> called (Uncaught ex) s2
                    | Inr (numDocs, s2) \<Rightarrow>
                        if numDocs = length usage
                        then (if length usage < pageSize e then called SuccessCb s2
                              else renewUsagePage e startId endId (skip + numDocs) s2)
                        else s2)))"
  by pat_completeness auto
termination
proof (relation "measure (\<lambda>(e, startId, endId, skip, s).
                   length (inRange startId endId (carryOver e)) - skip)")
  show "wf (measure (\<lambda>(e, startId, endId, skip, s).
                   length (inRange startId endId (carryOver e)) - skip))"
    by simp
next
  fix e :: env and startId endId :: string and skip :: nat and s s0 :: renewer
    and usage :: "row list" and s1 :: renewer and x :: "nat \<times> renewer" and numDocs :: nat
    and s2 :: renewer
  assume scan: "allDocs e startId endId (pageSize e) skip = Inr usage"
    and nonempty: "length usage \<noteq> 0"
    and all: "numDocs = length usage"
  from scan have "usage = take (pageSize e) (drop skip (inRange startId endId (carryOver e)))"
    by (simp add: allDocs_def split: option.splits)
  with nonempty have "skip < length (inRange startId endId (carryOver e))"
    by (cases "skip < length (inRange startId endId (carryOver e))") simp_all
  with nonempty all
  show "((e, startId, endId, skip + numDocs, s2), (e, startId, endId, skip, s)) \<in>
          measure (\<lambda>(e, startId, endId, skip, s).
                   length (inRange startId endId (carryOver e)) - skip)"
    by (cases usage) auto
qed

text \<open>
  Modelled from the spec: \<open>pad16\<close> of package abacus-dbclient, the fixed-width key of a
  timestamp: its decimal digits, padded with zeros on the left to 16 characters.
  \<open>toString\<close> is the decimal string of a non-negative integer.
\<close>

definition digit :: "nat \<Rightarrow> char" where
  "digit d = char_of (of_char CHR ''0'' + d)"

fun toString :: "nat \<Rightarrow> string" where
  "toString n = (if n < 10 then [digit n] else toString (n div 10) @ [digit (n mod 10)])"

definition pad16 :: "nat \<Rightarrow> string" where
  "pad16 t = replicate (16 - length (toString t)) CHR ''0'' @ toString t"

text \<open>
  The keys of the scan in \<open>renewUsage\<close>: \<open>'t/' + dbclient.pad16(startTime.valueOf())\<close>
  and the same for \<open>endTime\<close>.
\<close>

definition timeKey :: "nat \<Rightarrow> string" where
  "timeKey t = ''t/'' @ pad16 t"

text \<open>
  \<open>setRenewTimeout(fn, interval)\<close> replaces the pending timer and counts the call.
  \<open>renewUsage(systemToken, {failure, success})\<close>: without a token on a secured system the
  cycle is put off by five seconds and fails; otherwise the next cycle is scheduled and
  the previous month is scanned from \<open>skip = 0\<close>. The callbacks given to
  \<open>renewUsagePage\<close> hand their arguments on to the callbacks of the cycle.
\<close>

definition setRenewTimeout :: "nat \<Rightarrow> renewer \<Rightarrow> renewer" where
  "setRenewTimeout interval s =
     (let s1 = called (SetTimeout interval) s in s1\<lparr>retries_count := retries_count s1 + 1\<rparr>)"

definition renewUsage :: "env \<Rightarrow> renewer \<Rightarrow> renewer" where
  "renewUsage e s =
     (if secured e \<and> \<not> systemToken e
      then (let s1 = setRenewTimeout 5000 s;
                s2 = s1\<lparr>usage_missingToken := usage_missingToken s1 + 1, missingToken := True\<rparr>;
                s3 = registerError e MissingToken None None s2
            in called (FailureCb MissingTokenError None) s3)
      else renewUsagePage e (timeKey (startTime e)) (timeKey (endTime e)) 0
             (setRenewTimeout (retryInterval e) s))"

subsection \<open>Reading the log of calls\<close>

text \<open>
  The number of page reads in a log, and a log without the requests to the collector:
  what is left are the scans, the timer, the callbacks and uncaught exceptions.
\<close>

definition pageReads :: "call list \<Rightarrow> nat" where
  "pageReads cs = length (filter (\<lambda>c. case c of AllDocs a b l k \<Rightarrow> True | _ \<Rightarrow> False) cs)"

definition withoutRequests :: "call list \<Rightarrow> call list" where
  "withoutRequests cs =
     filter (\<lambda>c. case c of HttpGet i \<Rightarrow> False | HttpPost u \<Rightarrow> False | _ \<Rightarrow> True) cs"

text \<open>The state in which \<open>renewDocs\<close> ends, whether by an exception or not.\<close>

definition finalState :: "(js_error \<times> renewer) + (nat \<times> renewer) \<Rightarrow> renewer" where
  "finalState res = (case res of Inl (ex, s') \<Rightarrow> s' | Inr (m, s') \<Rightarrow> s')"

text \<open>
  Every fetch of a page succeeds: the collector answers 200 with a usage document. Every
  report succeeds: the collector answers 201, or 409.
\<close>

definition fetchesSucceed :: "env \<Rightarrow> heap \<Rightarrow> string list \<Rightarrow> bool" where
  "fetchesSucceed e h refs =
     (\<forall>ident \<in> set refs. \<exists>r a. collectorGet e ident = (None, Some r) \<and> statusCode r = 200 \<and>
                                body r = Some a \<and> usage_document h a)"

definition reportsSucceed :: "env \<Rightarrow> bool" where
  "reportsSucceed e =
     (\<forall>usage. \<exists>r. collectorPost e usage = (None, Some r) \<and>
                   (statusCode r = 201 \<or> statusCode r = 409))"

text \<open>
  The ids fetched and the number of reports posted in a log, and a collector that answers
  every report with 409.
\<close>

definition fetched :: "call list \<Rightarrow> string list" where
  "fetched cs = concat (map (\<lambda>c. case c of HttpGet i \<Rightarrow> [i] | _ \<Rightarrow> []) cs)"

definition reported :: "call list \<Rightarrow> nat" where
  "reported cs = length (filter (\<lambda>c. case c of HttpPost u \<Rightarrow> True | _ \<Rightarrow> False) cs)"

definition reportsConflict :: "env \<Rightarrow> bool" where
  "reportsConflict e =
     (\<forall>usage. \<exists>r. collectorPost e usage = (None, Some r) \<and> statusCode r = 409)"

text \<open>
  An example cycle: page size \<open>p\<close>, a carry-over store with the given rows, a collector
  that answers every fetch with the document at address 0 and every report with the given
  status code.
\<close>

definition example_env :: "nat \<Rightarrow> row list \<Rightarrow> nat \<Rightarrow> env" where
  "example_env p rows code =
     \<lparr>pageSize = p, retryInterval = 86400000, secured = False, systemToken = False,
      resourceUsageSchemaProperties = [''start'', ''end'', ''measured_usage''],
      now = 1710496800000, monthStart = 1709251200000,
      startTime = 1706744999400, endTime = 1709251199999,
      carryOver = rows,
      allDocsError = (\<lambda>skip. None),
      collectorGet = (\<lambda>ident. (None, Some \<lparr>statusCode = 200, body = Some 0\<rparr>)),
      collectorPost = (\<lambda>usage. (None, Some \<lparr>statusCode = code, body = None\<rparr>))\<rparr>"

definition example_rows :: "row list" where
  "example_rows =
     [\<lparr>key = ''t/0001708000000000'', collector_id = ''U1''\<rparr>,
      \<lparr>key = ''t/0001708000000001'', collector_id = ''U2''\<rparr>]"

text \<open>
  The \<open>k\<close> low-order decimal digits of a number, most significant first: the
  fixed-width form that the padded keys are compared with.
\<close>

primrec lowDigits :: "nat \<Rightarrow> nat \<Rightarrow> string" where
  "lowDigits 0 n = []"
| "lowDigits (Suc k) n = lowDigits k (n div 10) @ [digit (n mod 10)]"

section \<open>Plan mappings and plans\<close>

subsection \<open>The store, the cache and the log of steps\<close>

text \<open>
  The three instances of every cache, lock and database in the two modules, and the steps
  a lookup or a creation takes, in order: taking and releasing the lock of a key, reading
  and writing the cache, reading a bundled resource, reading and writing the database.
\<close>

datatype tier = Metering | Rating | Pricing

datatype step =
    Lock tier string
  | Unlock tier string
  | CacheGet tier string
  | CacheSet tier string
  | Require tier string
  | DbGet tier string
  | DbPut tier string

text \<open>
  Modelled from the spec: the persistent store (package abacus-dbclient behind the retry,
  breaker and batch wrappers), a key-value document store with \<open>get(id)\<close> and
  \<open>put(doc)\<close>. \<open>get\<close> yields undefined for an id that is not stored, \<open>put\<close>
  stores under the \<open>_id\<close> of the document, the last write winning. A store that is
  unavailable fails every call with its error. A stored document is represented by what
  \<open>dbclient.undbify\<close> leaves of it, without \<open>_id\<close>.
\<close>

record 'v store =
  docs :: "string \<rightharpoonup> 'v"
  unavailable :: "error option"

definition dbGet :: "'v store \<Rightarrow> string \<Rightarrow> error + 'v option" where
  "dbGet db ident = (case unavailable db of Some err \<Rightarrow> Inl err | None \<Rightarrow> Inr (docs db ident))"

definition dbPut :: "'v store \<Rightarrow> string \<Rightarrow> 'v \<Rightarrow> error + 'v store" where
  "dbPut db ident doc =
     (case unavailable db of
        Some err \<Rightarrow> Inl err
      | None \<Rightarrow> Inr (db\<lparr>docs := (docs db)(ident \<mapsto> doc)\<rparr>))"

text \<open>
  Modelled from the spec: the memory cache (package abacus-lrucache) is a map from keys to
  values, \<open>get\<close> a lookup and \<open>set\<close> an update. Its bound of 1000 entries and its
  expiry after 20 minutes are not modelled: an entry stays until it is overwritten.
\<close>

type_synonym 'v cache = "string \<rightharpoonup> 'v"

text \<open>
  JavaScript truthiness of a plan id that may be undefined: a string is truthy unless
  it is empty.
\<close>

definition truthy :: "string option \<Rightarrow> bool" where
  "truthy v = (case v of Some c \<Rightarrow> c \<noteq> [] | None \<Rightarrow> False)"

subsection \<open>Plan mappings (lib/config/mappings/src/index.js)\<close>

text \<open>
  The module state: the three caches, the three databases, and the steps taken so far. A
  mapping document \<open>{_id: id, planId: planId}\<close> is represented by its
  \<open>planId\<close>.
\<close>

record mappings =
  meteringMappingsCache :: "string cache"
  ratingMappingsCache :: "string cache"
  pricingMappingsCache :: "string cache"
  meteringMappingsDb :: "string store"
  ratingMappingsDb :: "string store"
  pricingMappingsDb :: "string store"
  steps :: "step list"

definition did :: "step list \<Rightarrow> mappings \<Rightarrow> mappings" where
  "did xs s = s\<lparr>steps := steps s @ xs\<rparr>"

text \<open>\<open>['k', resourceType, planName].join('/')\<close>\<close>

definition mappingId :: "string \<Rightarrow> string \<Rightarrow> string" where
  "mappingId resourceType planName = ''k/'' @ resourceType @ ''/'' @ planName"

text \<open>
  \<open>newMeteringMapping\<close>, \<open>newRatingMapping\<close>, \<open>newPricingMapping\<close>: one
  \<open>put\<close>, without lock and without touching the cache. The result is the error of the
  \<open>put\<close>, if any, and the new state.
\<close>

definition newMeteringMapping ::
  "string \<Rightarrow> string \<Rightarrow> string \<Rightarrow> mappings \<Rightarrow> error option \<times> mappings" where
  "newMeteringMapping resourceType planName planId s =
     (let ident = mappingId resourceType planName;
          s1 = did [DbPut Metering ident] s
      in case dbPut (meteringMappingsDb s1) ident planId of
           Inl err \<Rightarrow> (Some err, s1)
         | Inr db \<Rightarrow> (None, s1\<lparr>meteringMappingsDb := db\<rparr>))"

definition newRatingMapping ::
  "string \<Rightarrow> string \<Rightarrow> string \<Rightarrow> mappings \<Rightarrow> error option \<times> mappings" where
  "newRatingMapping resourceType planName planId s =
     (let ident = mappingId resourceType planName;
          s1 = did [DbPut Rating ident] s
      in case dbPut (ratingMappingsDb s1) ident planId of
           Inl err \<Rightarrow> (Some err, s1)
         | Inr db \<Rightarrow> (None, s1\<lparr>ratingMappingsDb := db\<rparr>))"

definition newPricingMapping ::
  "string \<Rightarrow> string \<Rightarrow> string \<Rightarrow> mappings \<Rightarrow> error option \<times> mappings" where
  "newPricingMapping resourceType planName planId s =
     (let ident = mappingId resourceType planName;
          s1 = did [DbPut Pricing ident] s
      in case dbPut (pricingMappingsDb s1) ident planId of
           Inl err \<Rightarrow> (Some err, s1)
         | Inr db \<Rightarrow> (None, s1\<lparr>pricingMappingsDb := db\<rparr>))"

text \<open>
  \<open>mappedMeteringPlan\<close>, \<open>mappedRatingPlan\<close>, \<open>mappedPricingPlan\<close>: under the
  lock of the id, a truthy cached plan id is returned; otherwise the database is read, and
  a document found there is cached and its plan id returned; otherwise the result is
  undefined. \<open>finally\<close> releases the lock on every path, also when the read fails.
  The result is the error or the plan id (\<open>None\<close> for undefined), and the new state.
\<close>

definition mappedMeteringPlan ::
  "string \<Rightarrow> string \<Rightarrow> mappings \<Rightarrow> (error + string option) \<times> mappings" where
  "mappedMeteringPlan resourceType planName s =
     (let ident = mappingId resourceType planName;
          s1 = did [Lock Metering ident, CacheGet Metering ident] s;
          cachedPlanId = meteringMappingsCache s1 ident
      in if truthy cachedPlanId then (Inr cachedPlanId, did [Unlock Metering ident] s1)
         else (let s2 = did [DbGet Metering ident] s1 in
               case dbGet (meteringMappingsDb s2) ident of
                 Inl err \<Rightarrow> (Inl err, did [Unlock Metering ident] s2)
               | Inr None \<Rightarrow> (Inr None, did [Unlock Metering ident] s2)
               | Inr (Some planId) \<Rightarrow>
                   (Inr (Some planId),
                    did [CacheSet Metering ident, Unlock Metering ident]
                      (s2\<lparr>meteringMappingsCache :=
                            (meteringMappingsCache s2)(ident \<mapsto> planId)\<rparr>))))"

definition mappedRatingPlan ::
  "string \<Rightarrow> string \<Rightarrow> mappings \<Rightarrow> (error + string option) \<times> mappings" where
  "mappedRatingPlan resourceType planName s =
     (let ident = mappingId resourceType planName;
          s1 = did [Lock Rating ident, CacheGet Rating ident] s;
          cachedPlanId = ratingMappingsCache s1 ident
      in if truthy cachedPlanId then (Inr cachedPlanId, did [Unlock Rating ident] s1)
         else (let s2 = did [DbGet Rating ident] s1 in
               case dbGet (ratingMappingsDb s2) ident of
                 Inl err \<Rightarrow> (Inl err, did [Unlock Rating ident] s2)
               | Inr None \<Rightarrow> (Inr None, did [Unlock Rating ident] s2)
               | Inr (Some planId) \<Rightarrow>
                   (Inr (Some planId),
                    did [CacheSet Rating ident, Unlock Rating ident]
                      (s2\<lparr>ratingMappingsCache :=
                            (ratingMappingsCache s2)(ident \<mapsto> planId)\<rparr>))))"

definition mappedPricingPlan ::
  "string \<Rightarrow> string \<Rightarrow> mappings \<Rightarrow> (error + string option) \<times> mappings" where
  "mappedPricingPlan resourceType planName s =
     (let ident = mappingId resourceType planName;
          s1 = did [Lock Pricing ident, CacheGet Pricing ident] s;
          cachedPlanId = pricingMappingsCache s1 ident
      in if truthy cachedPlanId then (Inr cachedPlanId, did [Unlock Pricing ident] s1)
         else (let s2 = did [DbGet Pricing ident] s1 in
               case dbGet (pricingMappingsDb s2) ident of
                 Inl err \<Rightarrow> (Inl err, did [Unlock Pricing ident] s2)
               | Inr None \<Rightarrow> (Inr None, did [Unlock Pricing ident] s2)
               | Inr (Some planId) \<Rightarrow>
                   (Inr (Some planId),
                    did [CacheSet Pricing ident, Unlock Pricing ident]
                      (s2\<lparr>pricingMappingsCache :=
                            (pricingMappingsCache s2)(ident \<mapsto> planId)\<rparr>))))"

text \<open>
  A default table, \<open>plans/metering.json\<close> and its two siblings: a JSON object from
  resource types to objects from plan names to plan ids, in the order of its keys. The
  files are not part of the sources, so the tables are parameters.
\<close>

type_synonym table = "(string \<times> (string \<times> string) list) list"

record defaults =
  defaultMeteringMapping :: table
  defaultRatingMapping :: table
  defaultPricingMapping :: table

text \<open>
  The generator of \<open>storeMapping\<close>: the inner loop over the plan names of one resource
  type and the outer loop over the resource types. A pair whose read is falsy is created.
  The first error ends the loops. The result is that error, if any, and the new state.
\<close>

fun storePlans ::
  "(string \<Rightarrow> string \<Rightarrow> mappings \<Rightarrow> (error + string option) \<times> mappings) \<Rightarrow>
   (string \<Rightarrow> string \<Rightarrow> string \<Rightarrow> mappings \<Rightarrow> error option \<times> mappings) \<Rightarrow>
   string \<Rightarrow> (string \<times> string) list \<Rightarrow> mappings \<Rightarrow> error option \<times> mappings" where
  "storePlans readFn createFn resourceType [] s = (None, s)"
| "storePlans readFn createFn resourceType ((planName, planId) # plans) s =
     (case readFn resourceType planName s of
        (Inl err, s1) \<Rightarrow> (Some err, s1)
      | (Inr found, s1) \<Rightarrow>
          if \<not> truthy found
          then (case createFn resourceType planName planId s1 of
                  (Some err, s2) \<Rightarrow> (Some err, s2)
                | (None, s2) \<Rightarrow> storePlans readFn createFn resourceType plans s2)
          else storePlans readFn createFn resourceType plans s1)"

fun storeTypes ::
  "(string \<Rightarrow> string \<Rightarrow> mappings \<Rightarrow> (error + string option) \<times> mappings) \<Rightarrow>
   (string \<Rightarrow> string \<Rightarrow> string \<Rightarrow> mappings \<Rightarrow> error option \<times> mappings) \<Rightarrow>
   table \<Rightarrow> mappings \<Rightarrow> error option \<times> mappings" where
  "storeTypes readFn createFn [] s = (None, s)"
| "storeTypes readFn createFn ((resourceType, plans) # mapping) s =
     (case storePlans readFn createFn resourceType plans s of
        (Some err, s1) \<Rightarrow> (Some err, s1)
      | (None, s1) \<Rightarrow> storeTypes readFn createFn mapping s1)"

text \<open>
  \<open>storeMapping(type, db, readFn, createFn, mapping, cb)\<close>: after the loops the
  callback of \<open>functioncb\<close> throws \<open>Failed to store default mappings\<close> on an error
  (\<open>Inl\<close>, with the state reached) and calls \<open>cb\<close> otherwise (\<open>Inr\<close>).
  \<open>cb\<close> works on what its closure holds, here \<open>c\<close>, which is passed along.
  \<open>type\<close> is used in the debug log only and \<open>db\<close> not at all.
\<close>

definition storeMapping ::
  "(string \<Rightarrow> string \<Rightarrow> mappings \<Rightarrow> (error + string option) \<times> mappings) \<Rightarrow>
   (string \<Rightarrow> string \<Rightarrow> string \<Rightarrow> mappings \<Rightarrow> error option \<times> mappings) \<Rightarrow>
   table \<Rightarrow> ('c \<Rightarrow> 'c) \<Rightarrow> 'c \<times> mappings \<Rightarrow> 'c \<times> (mappings + mappings)" where
  "storeMapping readFn createFn mapping cb cs =
     (case cs of
        (c, s) \<Rightarrow>
          (case storeTypes readFn createFn mapping s of
             (Some err, s1) \<Rightarrow> (c, Inl s1)
           | (None, s1) \<Rightarrow> (cb c, Inr s1)))"

text \<open>
  \<open>countCb\<close> works on the counter \<open>callCount\<close> of \<open>storeDefaultMappings\<close> and on
  the number of times the completion callback \<open>cb\<close> has been called:
  \<open>if (++callCount == 3) cb()\<close>.
\<close>

definition countCb :: "nat \<times> nat \<Rightarrow> nat \<times> nat" where
  "countCb c =
     (case c of
        (callCount, cbCalls) \<Rightarrow>
          (callCount + 1, if callCount + 1 = 3 then cbCalls + 1 else cbCalls))"

text \<open>
  \<open>storeDefaultMappings(cb)\<close> starts the three \<open>storeMapping\<close> passes one after
  the other without waiting; they run together, their steps interleaving as the replies of
  the databases arrive. A pass reads and writes the cache, the database and the lock of
  its own tier only, so the order of the interleaving does not matter to it: each pass is
  run here on its own from the starting state and keeps its own log of steps. The passes
  share nothing but \<open>callCount\<close>. A pass that throws does so in its own callback
  and does not stop the other two (what the host does with the exception is outside the
  module); it does not reach \<open>countCb\<close>, so the completion callback is then never
  called. The outcome is what each pass ended in and the number of calls of the completion
  callback.
\<close>

record seeding =
  meteringPass :: "mappings + mappings"
  ratingPass :: "mappings + mappings"
  pricingPass :: "mappings + mappings"
  callbacks :: nat

definition storeDefaultMappings :: "defaults \<Rightarrow> mappings \<Rightarrow> seeding" where
  "storeDefaultMappings d s =
     (let (c1, metered) =
            storeMapping mappedMeteringPlan newMeteringMapping (defaultMeteringMapping d)
              countCb ((0, 0), s);
          (c2, rated) =
            storeMapping mappedRatingPlan newRatingMapping (defaultRatingMapping d)
              countCb (c1, s);
          (c3, priced) =
            storeMapping mappedPricingPlan newPricingMapping (defaultPricingMapping d)
              countCb (c2, s)
      in \<lparr>meteringPass = metered, ratingPass = rated, pricingPass = priced,
          callbacks = snd c3\<rparr>)"

subsection \<open>Reading the state of the mappings by tier\<close>

text \<open>
  The cache, the database, the lookup and the creation of a tier, to state a property of
  the three instances at once, and the default table of a tier.
\<close>

definition mappingsCache :: "tier \<Rightarrow> mappings \<Rightarrow> string cache" where
  "mappingsCache T s =
     (case T of Metering \<Rightarrow> meteringMappingsCache s
              | Rating \<Rightarrow> ratingMappingsCache s
              | Pricing \<Rightarrow> pricingMappingsCache s)"

definition mappingsDb :: "tier \<Rightarrow> mappings \<Rightarrow> string store" where
  "mappingsDb T s =
     (case T of Metering \<Rightarrow> meteringMappingsDb s
              | Rating \<Rightarrow> ratingMappingsDb s
              | Pricing \<Rightarrow> pricingMappingsDb s)"

definition mappedPlan ::
  "tier \<Rightarrow> string \<Rightarrow> string \<Rightarrow> mappings \<Rightarrow> (error + string option) \<times> mappings" where
  "mappedPlan T =
     (case T of Metering \<Rightarrow> mappedMeteringPlan
              | Rating \<Rightarrow> mappedRatingPlan
              | Pricing \<Rightarrow> mappedPricingPlan)"

definition newMapping ::
  "tier \<Rightarrow> string \<Rightarrow> string \<Rightarrow> string \<Rightarrow> mappings \<Rightarrow> error option \<times> mappings" where
  "newMapping T =
     (case T of Metering \<Rightarrow> newMeteringMapping
              | Rating \<Rightarrow> newRatingMapping
              | Pricing \<Rightarrow> newPricingMapping)"

definition defaultMapping :: "tier \<Rightarrow> defaults \<Rightarrow> table" where
  "defaultMapping T d =
     (case T of Metering \<Rightarrow> defaultMeteringMapping d
              | Rating \<Rightarrow> defaultRatingMapping d
              | Pricing \<Rightarrow> defaultPricingMapping d)"

text \<open>The ids of the pairs of a table, in the order of the loops, and their plan ids.\<close>

definition tableEntries :: "table \<Rightarrow> (string \<times> string) list" where
  "tableEntries mapping =
     concat (map (\<lambda>(resourceType, plans).
                    map (\<lambda>(planName, planId). (mappingId resourceType planName, planId)) plans)
                 mapping)"

text \<open>
  A mapping is resolvable when its read returns a truthy plan id: from the cache, or, the
  cache having none, from the database.
\<close>

definition resolvable :: "tier \<Rightarrow> mappings \<Rightarrow> string \<Rightarrow> bool" where
  "resolvable T s ident =
     (truthy (mappingsCache T s ident) \<or>
      (unavailable (mappingsDb T s) = None \<and> truthy (docs (mappingsDb T s) ident)))"

text \<open>
  What the pass of a tier ended in, the state it reached, and whether it completed, that
  is, reached \<open>cb\<close> without throwing.
\<close>

definition passOf :: "tier \<Rightarrow> seeding \<Rightarrow> mappings + mappings" where
  "passOf T out =
     (case T of Metering \<Rightarrow> meteringPass out
              | Rating \<Rightarrow> ratingPass out
              | Pricing \<Rightarrow> pricingPass out)"

definition passState :: "tier \<Rightarrow> seeding \<Rightarrow> mappings" where
  "passState T out = (case passOf T out of Inl s \<Rightarrow> s | Inr s \<Rightarrow> s)"

definition completes :: "tier \<Rightarrow> seeding \<Rightarrow> bool" where
  "completes T out = (case passOf T out of Inl s \<Rightarrow> False | Inr s \<Rightarrow> True)"

text \<open>The writes to the databases among the steps.\<close>

definition writes :: "step list \<Rightarrow> step list" where
  "writes xs = filter (\<lambda>x. case x of DbPut T ident \<Rightarrow> True | _ \<Rightarrow> False) xs"

subsection \<open>Plans (lib/plugins/provisioning/src/index.js)\<close>







subsection \<open>The resolver of the specification\<close>




subsection \<open>Example states\<close>

text \<open>
  Empty caches and available, empty databases; a default table with one pair; the same
  state with that pair stored in the three databases; the empty state with the rating
  database unavailable.
\<close>

definition emptyStore :: "'v store" where
  "emptyStore = \<lparr>docs = Map.empty, unavailable = None\<rparr>"

definition emptyMappings :: mappings where
  "emptyMappings =
     \<lparr>meteringMappingsCache = Map.empty, ratingMappingsCache = Map.empty,
      pricingMappingsCache = Map.empty,
      meteringMappingsDb = emptyStore, ratingMappingsDb = emptyStore,
      pricingMappingsDb = emptyStore, steps = []\<rparr>"

definition exampleTable :: table where
  "exampleTable = [(''object-storage'', [(''basic'', ''basic-object-storage'')])]"

definition exampleDefaults :: defaults where
  "exampleDefaults =
     \<lparr>defaultMeteringMapping = exampleTable, defaultRatingMapping = exampleTable,
      defaultPricingMapping = exampleTable\<rparr>"

definition seededStore :: "string store" where
  "seededStore =
     \<lparr>docs = [''k/object-storage/basic'' \<mapsto> ''basic-object-storage''], unavailable = None\<rparr>"

definition seededMappings :: mappings where
  "seededMappings =
     emptyMappings\<lparr>meteringMappingsDb := seededStore, ratingMappingsDb := seededStore,
                   pricingMappingsDb := seededStore\<rparr>"

definition brokenMappings :: mappings where
  "brokenMappings =
     emptyMappings\<lparr>ratingMappingsDb :=
       \<lparr>docs = Map.empty, unavailable = Some (Error ''unavailable'')\<rparr>\<rparr>"



text \<open>
  Properties of a state during a pass of tier \<open>T\<close>. A mapping is untouched while it
  stays resolvable, the number of writes to it stays \<open>n\<close> and its document stays
  \<open>v\<close>. A state is settled with respect to a starting state when every default mapping
  of the tier is resolvable and nothing has been written since the start. A state is seeded
  from a starting state by a list of entries when the database is available, the resolvable
  mappings are those of the start and those of the entries, each entry that was not
  resolvable has been written once, with the plan id of its first occurrence, and nothing
  else has been written to the tier.
\<close>

definition untouched :: "tier \<Rightarrow> string \<Rightarrow> nat \<Rightarrow> string option \<Rightarrow> mappings \<Rightarrow> bool" where
  "untouched T k n v s =
     (resolvable T s k \<and> count_list (steps s) (DbPut T k) = n \<and>
      docs (mappingsDb T s) k = v)"

definition allResolvable :: "defaults \<Rightarrow> mappings \<Rightarrow> bool" where
  "allResolvable d s =
     (\<forall>T. \<forall>ident \<in> fst ` set (tableEntries (defaultMapping T d)). resolvable T s ident)"

definition settled :: "tier \<Rightarrow> defaults \<Rightarrow> mappings \<Rightarrow> mappings \<Rightarrow> bool" where
  "settled T d s0 s =
     ((\<forall>ident \<in> fst ` set (tableEntries (defaultMapping T d)). resolvable T s ident) \<and>
      (\<exists>xs. steps s = steps s0 @ xs \<and> writes xs = []) \<and>
      (\<forall>T'. mappingsDb T' s = mappingsDb T' s0))"

definition seededBy :: "tier \<Rightarrow> mappings \<Rightarrow> (string \<times> string) list \<Rightarrow> mappings \<Rightarrow> bool" where
  "seededBy T s es s' =
     (unavailable (mappingsDb T s') = None \<and>
      (\<forall>k. resolvable T s' k = (resolvable T s k \<or> k \<in> fst ` set es)) \<and>
      (\<forall>k. docs (mappingsDb T s') k =
             (if resolvable T s k then docs (mappingsDb T s) k
              else case map_of es k of Some pid \<Rightarrow> Some pid
                                     | None \<Rightarrow> docs (mappingsDb T s) k)) \<and>
      (\<forall>k. count_list (steps s') (DbPut T k) =
             count_list (steps s) (DbPut T k) +
               (if \<not> resolvable T s k \<and> k \<in> fst ` set es then 1 else 0)))"

section \<open>Properties of the usage transformation\<close>

lemma str_case_iff:
  "(case x of Some (JStr m) \<Rightarrow> True | _ \<Rightarrow> False) \<longleftrightarrow> (\<exists>m. x = Some (JStr m))"
  by (cases x) (auto split: jsval.splits)

lemma zeroLoop_length: "zeroLoop h rs = Inr h' \<Longrightarrow> length h' = length h"
  by (induction rs arbitrary: h) (auto split: option.splits jsval.splits if_splits)

lemma getProp_upd_other:
  "k \<noteq> ''quantity'' \<Longrightarrow> deref h r = Some ob \<Longrightarrow>
   getProp (h[r := AList.update ''quantity'' v ob]) a k = getProp h a k"
  by (auto simp: getProp_def deref_def update_conv' nth_list_update split: if_splits)

lemma zeroLoop_frame:
  "zeroLoop h rs = Inr h' \<Longrightarrow> k \<noteq> ''quantity'' \<Longrightarrow> getProp h' a k = getProp h a k"
proof (induction rs arbitrary: h)
  case Nil
  then show ?case by simp
next
  case (Cons r rs)
  then show ?case
    by (auto split: option.splits jsval.splits if_splits simp: getProp_upd_other)
qed

lemma zeroLoop_quantity:
  "zeroLoop h rs = Inr h' \<Longrightarrow>
   getProp h' a ''quantity'' =
     (if a \<in> set rs \<and> (\<exists>m. getProp h a ''measure'' = Some (JStr m) \<and> startsWith m ''previous'')
      then Some (JNum 0) else getProp h a ''quantity'')"
proof (induction rs arbitrary: h)
  case Nil
  then show ?case by simp
next
  case (Cons r rs)
  from Cons.prems obtain ob m where ob: "deref h r = Some ob" and m: "map_of ob ''measure'' = Some (JStr m)"
    by (auto split: option.splits jsval.splits)
  let ?h1 = "if startsWith m ''previous'' then h[r := AList.update ''quantity'' (JNum 0) ob] else h"
  from Cons.prems ob m have rest: "zeroLoop ?h1 rs = Inr h'" by simp
  have meas: "getProp ?h1 a ''measure'' = getProp h a ''measure''"
    using ob by (simp add: getProp_upd_other)
  have rm: "getProp h r ''measure'' = Some (JStr m)" using ob m by (simp add: getProp_def)
  have q1: "getProp ?h1 a ''quantity'' = (if a = r \<and> startsWith m ''previous'' then Some (JNum 0) else getProp h a ''quantity'')"
    using ob by (auto simp: getProp_def deref_def update_conv' nth_list_update split: if_splits)
  show ?case
    using Cons.IH[OF rest] meas q1 rm by auto
qed

lemma zeroLoop_total:
  "list_all (\<lambda>r. case getProp h r ''measure'' of Some (JStr m) \<Rightarrow> True | _ \<Rightarrow> False) rs \<Longrightarrow>
   \<exists>h'. zeroLoop h rs = Inr h'"
proof (induction rs arbitrary: h)
  case Nil
  then show ?case by simp
next
  case (Cons r rs)
  from Cons.prems obtain ob m where ob: "deref h r = Some ob" and m: "map_of ob ''measure'' = Some (JStr m)"
    by (auto simp: getProp_def split: option.splits jsval.splits)
  let ?h1 = "if startsWith m ''previous'' then h[r := AList.update ''quantity'' (JNum 0) ob] else h"
  have "\<And>a. getProp ?h1 a ''measure'' = getProp h a ''measure''"
    using ob by (simp add: getProp_upd_other)
  with Cons.prems have "list_all (\<lambda>r. case getProp ?h1 r ''measure'' of Some (JStr m) \<Rightarrow> True | _ \<Rightarrow> False) rs"
    by simp
  from Cons.IH[OF this] show ?case using ob m by simp
qed

lemma getProp_append_old: "a < length h \<Longrightarrow> getProp (h @ [u]) a k = getProp h a k"
  by (simp add: getProp_def deref_def nth_append)

lemma getProp_append_new: "getProp (h @ [u]) (length h) k = map_of u k"
  by (simp add: getProp_def deref_def)

lemma getProp_append:
  "getProp (h @ [u]) a k =
     (if a < length h then getProp h a k else if a = length h then map_of u k else None)"
  by (simp add: getProp_def deref_def nth_append)

lemma getProp_list_update:
  "a < length h \<Longrightarrow> getProp (h[a := ob]) r p = (if r = a then map_of ob p else getProp h r p)"
  by (simp add: getProp_def deref_def)

lemma getProp_valid: "getProp h a k = Some v \<Longrightarrow> a < length h"
  by (auto simp: getProp_def deref_def split: if_splits)

lemma zeroUsage_effect:
  assumes "usage_document h usage"
  shows "\<exists>h'. zeroUsage h usage = Inr (length h, h') \<and>
           (\<forall>p. getProp h' (length h) p = getProp h usage p) \<and>
           (\<forall>r p. r < length h \<longrightarrow> p \<noteq> ''quantity'' \<longrightarrow> getProp h' r p = getProp h r p) \<and>
           measured h' (length h) =
             map (\<lambda>(m, q). (m, if (case m of Some (JStr s) \<Rightarrow> startsWith s ''previous'' | _ \<Rightarrow> False)
                               then Some (JNum 0) else q))
                 (measured h usage)"
proof -
  from assms obtain ms where ms: "getProp h usage ''measured_usage'' = Some (JArr ms)"
    and typed: "list_all (\<lambda>r. case getProp h r ''measure'' of Some (JStr m) \<Rightarrow> True | _ \<Rightarrow> False) ms"
    by (auto simp: usage_document_def split: option.splits jsval.splits)
  from ms obtain u where u: "deref h usage = Some u" and mu: "map_of u ''measured_usage'' = Some (JArr ms)"
    by (auto simp: getProp_def split: option.splits)
  have valid: "\<And>r. r \<in> set ms \<Longrightarrow> r < length h"
    using typed by (auto simp: list_all_iff dest: getProp_valid split: option.splits jsval.splits)
  have "list_all (\<lambda>r. case getProp (h @ [u]) r ''measure'' of Some (JStr m) \<Rightarrow> True | _ \<Rightarrow> False) ms"
    using typed valid by (simp add: list_all_iff getProp_append_old)
  from zeroLoop_total[OF this] obtain h' where h': "zeroLoop (h @ [u]) ms = Inr h'" ..
  have res: "zeroUsage h usage = Inr (length h, h')"
    using u mu h' by (simp add: zeroUsage_def)
  have q: "\<And>a. getProp h' a ''quantity'' =
     (if a \<in> set ms \<and> (\<exists>m. getProp (h @ [u]) a ''measure'' = Some (JStr m) \<and> startsWith m ''previous'')
      then Some (JNum 0) else getProp (h @ [u]) a ''quantity'')"
    by (rule zeroLoop_quantity[OF h'])
  have fr: "\<And>a k. k \<noteq> ''quantity'' \<Longrightarrow> getProp h' a k = getProp (h @ [u]) a k"
    by (rule zeroLoop_frame[OF h'])
  have new: "\<And>p. getProp h' (length h) p = getProp h usage p"
  proof -
    fix p
    have "length h \<notin> set ms" using valid by auto
    then have "getProp h' (length h) p = getProp (h @ [u]) (length h) p"
      using q[of "length h"] fr[of p "length h"] by (cases "p = ''quantity''") auto
    then show "getProp h' (length h) p = getProp h usage p"
      using u by (simp add: getProp_append_new) (simp add: getProp_def)
  qed
  have old: "\<And>r p. r < length h \<Longrightarrow> p \<noteq> ''quantity'' \<Longrightarrow> getProp h' r p = getProp h r p"
    using fr by (simp add: getProp_append_old)
  have ent: "\<And>r. r \<in> set ms \<Longrightarrow>
      (getProp h' r ''measure'', getProp h' r ''quantity'') =
      (getProp h r ''measure'',
        if (case getProp h r ''measure'' of Some (JStr s) \<Rightarrow> startsWith s ''previous'' | _ \<Rightarrow> False)
        then Some (JNum 0) else getProp h r ''quantity'')"
  proof -
    fix r assume r: "r \<in> set ms"
    then have v: "r < length h" by (rule valid)
    from typed r obtain m where m: "getProp h r ''measure'' = Some (JStr m)"
      by (auto simp: list_all_iff str_case_iff)
    show "(getProp h' r ''measure'', getProp h' r ''quantity'') =
      (getProp h r ''measure'',
        if (case getProp h r ''measure'' of Some (JStr s) \<Rightarrow> startsWith s ''previous'' | _ \<Rightarrow> False)
        then Some (JNum 0) else getProp h r ''quantity'')"
      using q[of r] fr[of "''measure''" r] r v m by (simp add: getProp_append_old)
  qed
  have "measured h' (length h) = map (\<lambda>r. (getProp h' r ''measure'', getProp h' r ''quantity'')) ms"
    using new[of "''measured_usage''"] ms by (simp add: measured_def)
  also have "\<dots> = map (\<lambda>r. (getProp h r ''measure'',
        if (case getProp h r ''measure'' of Some (JStr s) \<Rightarrow> startsWith s ''previous'' | _ \<Rightarrow> False)
        then Some (JNum 0) else getProp h r ''quantity'')) ms"
    using ent by simp
  also have "\<dots> = map (\<lambda>(m, q). (m, if (case m of Some (JStr s) \<Rightarrow> startsWith s ''previous'' | _ \<Rightarrow> False)
                               then Some (JNum 0) else q)) (measured h usage)"
    using ms by (simp add: measured_def comp_def)
  finally show ?thesis using res new old by blast
qed


lemmas ex_simps = example_store_def usage_document_def measured_def getProp_def deref_def
  startsWith_def zeroUsage_def refreshUsage_def

text \<open>
  Claim C6. For a usage document, \<open>zeroUsage\<close> returns a new object that has the
  properties of the argument; read through the store after the call, the entries of its
  \<open>measured_usage\<close> have quantity 0 exactly where the measure name starts with
  \<open>previous\<close>, and keep their quantity elsewhere; no property other than
  \<open>quantity\<close> of any object changes. For the entries \<open>previous_instances\<close> with
  quantity 5 and \<open>current_instances\<close> with quantity 2 the quantities become 0 and 2.
\<close>

theorem zeroUsage_zeroes_previous:
  assumes "usage_document h usage"
  shows "\<exists>h'. zeroUsage h usage = Inr (length h, h') \<and>
           (\<forall>p. getProp h' (length h) p = getProp h usage p) \<and>
           (\<forall>r p. r < length h \<longrightarrow> p \<noteq> ''quantity'' \<longrightarrow> getProp h' r p = getProp h r p) \<and>
           measured h' (length h) =
             map (\<lambda>(m, q). (m, if (case m of Some (JStr s) \<Rightarrow> startsWith s ''previous'' | _ \<Rightarrow> False)
                               then Some (JNum 0) else q))
                 (measured h usage)"
  using assms by (rule zeroUsage_effect)

theorem zeroUsage_zeroes_previous_witness:
  "usage_document example_store 0 \<and>
   (\<exists>h'. zeroUsage example_store 0 = Inr (3, h') \<and>
         measured h' 3 = [(Some (JStr ''previous_instances''), Some (JNum 0)),
                          (Some (JStr ''current_instances''), Some (JNum 2))])"
proof -
  have doc: "usage_document example_store 0"
    by (simp add: ex_simps)
  have m: "measured example_store 0 = [(Some (JStr ''previous_instances''), Some (JNum 5)),
                          (Some (JStr ''current_instances''), Some (JNum 2))]"
    by (simp add: ex_simps)
  have l: "length example_store = 3" by (simp add: example_store_def)
  show ?thesis
    using zeroUsage_zeroes_previous [OF doc] doc unfolding m l
    by (auto simp: startsWith_def)
qed

lemma usage_document_refresh:
  assumes "usage_document h usage" "deref h usage = Some u"
  shows "usage_document (h[usage := AList.update ''end'' v (AList.update ''start'' w u)]) usage"
proof -
  have k: "\<And>a. getProp (h[usage := AList.update ''end'' v (AList.update ''start'' w u)]) a ''measure'' = getProp h a ''measure''"
       "\<And>a. getProp (h[usage := AList.update ''end'' v (AList.update ''start'' w u)]) a ''measured_usage'' = getProp h a ''measured_usage''"
    using assms(2)
    by (auto simp: getProp_def deref_def update_conv' nth_list_update split: if_splits)
  show ?thesis using assms(1) unfolding usage_document_def k .
qed

lemma zeroUsage_result:
  assumes "zeroUsage h usage = Inr (a', h')"
  shows "a' = length h \<and> usage < length h \<and> length h' = Suc (length h) \<and>
         (\<forall>r p. p \<noteq> ''quantity'' \<longrightarrow> getProp h' r p = getProp (h @ [h ! usage]) r p)"
proof -
  from assms obtain u where u: "deref h usage = Some u"
    by (auto simp: zeroUsage_def split: option.splits)
  then have v: "usage < length h" and hu: "h ! usage = u"
    by (auto simp: deref_def split: if_splits)
  from assms u have a': "a' = length h"
    by (auto simp: zeroUsage_def Let_def split: option.splits jsval.splits sum.splits list.splits)
  from assms u consider ms where "zeroLoop (h @ [u]) ms = Inr h'" | "h' = h @ [u]"
    by (auto simp: zeroUsage_def Let_def split: option.splits jsval.splits sum.splits list.splits)
  then show ?thesis
  proof cases
    case 1
    then show ?thesis using a' v hu zeroLoop_length[OF 1] zeroLoop_frame[OF 1] by simp
  next
    case 2
    then show ?thesis using a' v hu by simp
  qed
qed

lemma refreshUsage_returns:
  assumes doc: "usage_document h usage"
  shows "\<exists>res. refreshUsage t h usage = Inr res"
proof -
  from doc obtain u where u: "deref h usage = Some u"
    by (auto simp: usage_document_def getProp_def split: option.splits)
  from zeroUsage_effect[OF usage_document_refresh[OF doc u, of "JNum t" "JNum t"]]
  obtain h' where "zeroUsage (h[usage := AList.update ''end'' (JNum t)
       (AList.update ''start'' (JNum t) u)]) usage = Inr (length h, h')"
    by auto
  with u show ?thesis
    by (simp add: refreshUsage_def)
qed

lemma refreshUsage_sets:
  assumes r: "refreshUsage t h usage = Inr (a', h')"
  shows "getProp h' a' ''start'' = Some (JNum t) \<and>
         getProp h' a' ''end'' = Some (JNum t)"
proof -
  from r obtain u where u: "deref h usage = Some u"
    by (auto simp: refreshUsage_def split: option.splits)
  let ?h1 = "h[usage := AList.update ''end'' (JNum t) (AList.update ''start'' (JNum t) u)]"
  from r u have z: "zeroUsage ?h1 usage = Inr (a', h')" by (simp add: refreshUsage_def)
  from u have v: "usage < length h" by (auto simp: deref_def split: if_splits)
  have fr: "\<And>r p. p \<noteq> ''quantity'' \<Longrightarrow> getProp h' r p = getProp (?h1 @ [?h1 ! usage]) r p"
    using zeroUsage_result[OF z] by blast
  have a': "a' = length ?h1" using zeroUsage_result[OF z] by blast
  show ?thesis
    unfolding a' using v by (simp add: fr getProp_append update_conv')
qed

text \<open>
  Claim C7. The document \<open>refreshUsage\<close> returns has \<open>start\<close> and \<open>end\<close> both
  equal to the month start it is given, the start of the current UTC month in epoch
  milliseconds; and for every usage document \<open>refreshUsage\<close> does return one.
\<close>

theorem refreshUsage_start_end:
  "(usage_document h usage \<longrightarrow> (\<exists>res. refreshUsage t h usage = Inr res)) \<and>
   (\<forall>a' h'. refreshUsage t h usage = Inr (a', h') \<longrightarrow>
      getProp h' a' ''start'' = Some (JNum t) \<and>
      getProp h' a' ''end'' = Some (JNum t))"
  using refreshUsage_returns refreshUsage_sets by blast

theorem refreshUsage_start_end_witness:
  "usage_document example_store 0 \<and>
   (\<exists>h'. refreshUsage 1709251200000 example_store 0 = Inr (3, h') \<and>
      getProp h' 3 ''start'' = Some (JNum 1709251200000) \<and>
      getProp h' 3 ''end'' = Some (JNum 1709251200000))"
proof -
  have doc: "usage_document example_store 0"
    by (simp add: ex_simps)
  from refreshUsage_start_end [of example_store 0 1709251200000] doc
  obtain res where res: "refreshUsage 1709251200000 example_store 0 = Inr res"
    by blast
  have "fst res = 3" using res by (auto simp add: ex_simps)
  then have "refreshUsage 1709251200000 example_store 0 = Inr (3, snd res)"
    using res by (cases res) simp
  with refreshUsage_start_end [of example_store 0 1709251200000] doc
  show ?thesis by blast
qed

text \<open>
  Claim C1, as the specification states it, fails: after \<open>refreshUsage\<close> the argument
  document itself has the new \<open>start\<close> and \<open>end\<close>, and its first entry, shared with
  the copy, has quantity 0.
\<close>

theorem refreshUsage_mutates_input_counterexample:
  "refreshUsage 1000 example_store 0 =
     Inr (3,
       [[(''id'', JStr ''U1''), (''start'', JNum 1000), (''end'', JNum 1000), (''measured_usage'', JArr [1, 2])],
        [(''measure'', JStr ''previous_instances''), (''quantity'', JNum 0)],
        [(''measure'', JStr ''current_instances''), (''quantity'', JNum 2)],
        [(''id'', JStr ''U1''), (''start'', JNum 1000), (''end'', JNum 1000), (''measured_usage'', JArr [1, 2])]]) \<and>
   getProp example_store 0 ''start'' = Some (JNum 5) \<and>
   getProp example_store 0 ''end'' = Some (JNum 9) \<and>
   getProp example_store 1 ''quantity'' = Some (JNum 5)"
  by (simp add: ex_simps)

lemma refreshUsage_effect:
  assumes "refreshUsage t h usage = Inr (a', h')"
  shows "a' = length h \<and> usage < a' \<and>
         getProp h' usage ''start'' = Some (JNum t) \<and>
         getProp h' usage ''end'' = Some (JNum t) \<and>
         (\<forall>p. p \<noteq> ''quantity'' \<longrightarrow> getProp h' a' p = getProp h' usage p) \<and>
         (\<forall>r p. r < length h \<longrightarrow> p \<noteq> ''quantity'' \<longrightarrow>
                 (r = usage \<longrightarrow> p \<noteq> ''start'' \<and> p \<noteq> ''end'') \<longrightarrow>
                 getProp h' r p = getProp h r p)"
proof -
  from assms obtain u where u: "deref h usage = Some u"
    by (auto simp: refreshUsage_def split: option.splits)
  let ?h1 = "h[usage := AList.update ''end'' (JNum t) (AList.update ''start'' (JNum t) u)]"
  from assms u have z: "zeroUsage ?h1 usage = Inr (a', h')" by (simp add: refreshUsage_def)
  from u have v: "usage < length h" and hu: "h ! usage = u" by (auto simp: deref_def split: if_splits)
  note zr = zeroUsage_result[OF z]
  have fr: "\<And>r p. p \<noteq> ''quantity'' \<Longrightarrow> getProp h' r p = getProp (?h1 @ [?h1 ! usage]) r p"
    using zr by blast
  have 1: "a' = length h" "usage < a'" using zr v by simp_all
  have 2: "getProp h' usage ''start'' = Some (JNum t)"
          "getProp h' usage ''end'' = Some (JNum t)"
    using v by (simp_all add: fr getProp_append_old getProp_list_update update_conv')
  have a': "a' = length ?h1" using zr by blast
  have 3: "\<And>p. p \<noteq> ''quantity'' \<Longrightarrow> getProp h' a' p = getProp h' usage p"
    unfolding a' using v by (simp add: fr getProp_append getProp_list_update)
  have 4: "\<And>r p. r < length h \<Longrightarrow> p \<noteq> ''quantity'' \<Longrightarrow> (r = usage \<longrightarrow> p \<noteq> ''start'' \<and> p \<noteq> ''end'') \<Longrightarrow>
                 getProp h' r p = getProp h r p"
  proof -
    fix r p
    assume a: "r < length h" "p \<noteq> ''quantity''" "r = usage \<longrightarrow> p \<noteq> ''start'' \<and> p \<noteq> ''end''"
    have gu: "getProp h usage p = map_of u p" using u by (simp add: getProp_def)
    show "getProp h' r p = getProp h r p"
      using a v gu by (simp add: fr getProp_append getProp_list_update update_conv')
  qed
  show ?thesis using 1 2 3 4 by blast
qed

lemma previousMeasure_iff:
  "previousMeasure h r \<longleftrightarrow> (\<exists>m. getProp h r ''measure'' = Some (JStr m) \<and> startsWith m ''previous'')"
  by (auto simp: previousMeasure_def split: option.splits jsval.splits)

lemma zeroUsage_quantity:
  assumes "zeroUsage h usage = Inr (a', h')"
  shows "getProp h' r ''quantity'' =
           (if r \<in> set (measuredRefs h usage) \<and> previousMeasure (h @ [h ! usage]) r
            then Some (JNum 0) else getProp (h @ [h ! usage]) r ''quantity'')"
proof -
  from assms obtain u where u: "deref h usage = Some u"
    by (auto simp: zeroUsage_def split: option.splits)
  then have hu: "h ! usage = u" and gp: "getProp h usage ''measured_usage'' = map_of u ''measured_usage''"
    by (auto simp: deref_def getProp_def split: if_splits)
  from assms u consider ms where "map_of u ''measured_usage'' = Some (JArr ms)"
      "zeroLoop (h @ [u]) ms = Inr h'"
    | "map_of u ''measured_usage'' = Some (JStr [])" "h' = h @ [u]"
    by (auto simp: zeroUsage_def Let_def split: option.splits jsval.splits sum.splits list.splits)
  then show ?thesis
  proof cases
    case 1
    have "measuredRefs h usage = ms" using 1(1) gp by (simp add: measuredRefs_def)
    then show ?thesis
      using zeroLoop_quantity[OF 1(2), of r] hu by (auto simp: previousMeasure_iff)
  next
    case 2
    have "measuredRefs h usage = []" using 2(1) gp by (simp add: measuredRefs_def)
    then show ?thesis using 2(2) hu by simp
  qed
qed

lemma refreshUsage_exact:
  assumes "refreshUsage t h usage = Inr (a', h')"
  shows "a' = length h \<and> usage < a' \<and>
         getProp h' usage ''start'' = Some (JNum t) \<and>
         getProp h' usage ''end'' = Some (JNum t) \<and>
         (\<forall>r p. r < length h \<longrightarrow> \<not> (r = usage \<and> (p = ''start'' \<or> p = ''end'')) \<longrightarrow>
                 \<not> (p = ''quantity'' \<and> r \<in> set (measuredRefs h usage) \<and> previousMeasure h r) \<longrightarrow>
                 getProp h' r p = getProp h r p) \<and>
         (\<forall>p. (p = ''quantity'' \<longrightarrow>
                  usage \<notin> set (measuredRefs h usage) \<and> a' \<notin> set (measuredRefs h usage)) \<longrightarrow>
              getProp h' a' p = getProp h' usage p)"
proof -
  from assms obtain u where u: "deref h usage = Some u"
    by (auto simp: refreshUsage_def split: option.splits)
  define u' where "u' = AList.update ''end'' (JNum t) (AList.update ''start'' (JNum t) u)"
  define h0 where "h0 = h[usage := u']"
  from assms u have z: "zeroUsage h0 usage = Inr (a', h')"
    by (simp add: refreshUsage_def h0_def u'_def)
  from u have v: "usage < length h" by (auto simp: deref_def split: if_splits)
  have gu: "\<And>p. getProp h usage p = map_of u p" using u by (simp add: getProp_def)
  have h0u: "h0 ! usage = u'" using v by (simp add: h0_def)
  have g0: "\<And>r p. getProp h0 r p = (if r = usage then map_of u' p else getProp h r p)"
    using v by (simp add: h0_def getProp_list_update)
  have mu': "\<And>p. map_of u' p = (if p = ''start'' \<or> p = ''end'' then Some (JNum t) else map_of u p)"
    by (simp add: u'_def update_conv')
  have g1: "\<And>r p. getProp (h0 @ [h0 ! usage]) r p =
              (if r < length h then getProp h0 r p else if r = length h then map_of u' p else None)"
    by (simp add: getProp_append h0u) (simp add: h0_def)
  note zr = zeroUsage_result[OF z]
  have fr: "\<And>r p. p \<noteq> ''quantity'' \<Longrightarrow> getProp h' r p = getProp (h0 @ [h0 ! usage]) r p"
    using zr by blast
  have a': "a' = length h" using zr by (simp add: h0_def)
  have refs: "measuredRefs h0 usage = measuredRefs h usage"
    by (simp add: measuredRefs_def g0 mu' gu)
  have prev_old: "\<And>r. r < length h \<Longrightarrow> previousMeasure (h0 @ [h0 ! usage]) r = previousMeasure h r"
    by (simp add: previousMeasure_def g1 g0 mu' gu)
  have prev_new: "previousMeasure (h0 @ [h0 ! usage]) (length h) = previousMeasure h usage"
    by (simp add: previousMeasure_def g1 mu' gu)
  have q: "\<And>r. getProp h' r ''quantity'' =
           (if r \<in> set (measuredRefs h usage) \<and> previousMeasure (h0 @ [h0 ! usage]) r
            then Some (JNum 0) else getProp (h0 @ [h0 ! usage]) r ''quantity'')"
    using zeroUsage_quantity[OF z] by (simp add: refs)
  have 1: "getProp h' usage ''start'' = Some (JNum t)" "getProp h' usage ''end'' = Some (JNum t)"
    using v by (simp_all add: fr g1 g0 mu')
  have 2: "\<And>r p. r < length h \<Longrightarrow> \<not> (r = usage \<and> (p = ''start'' \<or> p = ''end'')) \<Longrightarrow>
             \<not> (p = ''quantity'' \<and> r \<in> set (measuredRefs h usage) \<and> previousMeasure h r) \<Longrightarrow>
             getProp h' r p = getProp h r p"
  proof -
    fix r p
    assume a: "r < length h" "\<not> (r = usage \<and> (p = ''start'' \<or> p = ''end''))"
      "\<not> (p = ''quantity'' \<and> r \<in> set (measuredRefs h usage) \<and> previousMeasure h r)"
    show "getProp h' r p = getProp h r p"
    proof (cases "p = ''quantity''")
      case True
      with a show ?thesis using q[of r] prev_old[of r] by (auto simp: g1 g0 mu' gu)
    next
      case False
      with a show ?thesis by (auto simp: fr g1 g0 mu' gu)
    qed
  qed
  have 3: "\<And>p. (p = ''quantity'' \<longrightarrow>
                  usage \<notin> set (measuredRefs h usage) \<and> a' \<notin> set (measuredRefs h usage)) \<Longrightarrow>
              getProp h' a' p = getProp h' usage p"
  proof -
    fix p
    assume a: "p = ''quantity'' \<longrightarrow>
                  usage \<notin> set (measuredRefs h usage) \<and> a' \<notin> set (measuredRefs h usage)"
    show "getProp h' a' p = getProp h' usage p"
    proof (cases "p = ''quantity''")
      case True
      with a show ?thesis using q[of a'] q[of usage] v by (simp add: a' g1 g0)
    next
      case False
      then show ?thesis using v by (simp add: a' fr g1 g0)
    qed
  qed
  show ?thesis using a' v 1 2 3 by blast
qed

text \<open>
  Claim C1, amended. \<open>refreshUsage\<close> writes the month start to \<open>start\<close> and
  \<open>end\<close> of its argument, in place, and returns a newly allocated object, distinct from
  the argument. Of the objects that existed before, every property keeps its value, the
  quantity of every entry included, except \<open>start\<close> and \<open>end\<close> of the argument and
  the quantity of those entries of its \<open>measured_usage\<close> whose measure starts with
  \<open>previous\<close>. The returned object agrees with the argument on every property (on a
  property \<open>quantity\<close> of its own as long as the document is not among its own
  entries).
\<close>

theorem refreshUsage_in_place:
  assumes "refreshUsage t h usage = Inr (a', h')"
  shows "a' = length h \<and> usage < a' \<and>
         getProp h' usage ''start'' = Some (JNum t) \<and>
         getProp h' usage ''end'' = Some (JNum t) \<and>
         (\<forall>r p. r < length h \<longrightarrow> \<not> (r = usage \<and> (p = ''start'' \<or> p = ''end'')) \<longrightarrow>
                 \<not> (p = ''quantity'' \<and> r \<in> set (measuredRefs h usage) \<and> previousMeasure h r) \<longrightarrow>
                 getProp h' r p = getProp h r p) \<and>
         (\<forall>p. (p = ''quantity'' \<longrightarrow>
                  usage \<notin> set (measuredRefs h usage) \<and> a' \<notin> set (measuredRefs h usage)) \<longrightarrow>
              getProp h' a' p = getProp h' usage p)"
  using assms by (rule refreshUsage_exact)

theorem refreshUsage_in_place_witness:
  "\<exists>h'. refreshUsage 1000 example_store 0 = Inr (3, h') \<and>
         getProp h' 0 ''start'' = Some (JNum 1000) \<and>
         getProp h' 0 ''end'' = Some (JNum 1000) \<and>
         getProp h' 0 ''id'' = Some (JStr ''U1'') \<and>
         getProp h' 2 ''quantity'' = Some (JNum 2) \<and>
         getProp h' 1 ''measure'' = Some (JStr ''previous_instances'') \<and>
         getProp h' 3 ''id'' = Some (JStr ''U1'')"
proof -
  obtain h' where r: "refreshUsage 1000 example_store 0 = Inr (3, h')"
    by (simp add: ex_simps)
  have l: "length example_store = 3" by (simp add: example_store_def)
  have refs: "measuredRefs example_store 0 = [1, 2]"
    by (simp add: measuredRefs_def example_store_def getProp_def deref_def)
  have np: "\<not> previousMeasure example_store 2"
    by (simp add: previousMeasure_def example_store_def getProp_def deref_def startsWith_def)
  note e = refreshUsage_in_place [OF r]
  from e have "getProp h' 0 ''start'' = Some (JNum 1000)" "getProp h' 0 ''end'' = Some (JNum 1000)"
    by simp_all
  moreover from e have "getProp h' 0 ''id'' = getProp example_store 0 ''id''"
    unfolding l by simp
  moreover from e np have "getProp h' 2 ''quantity'' = getProp example_store 2 ''quantity''"
    unfolding l by simp
  moreover from e have "getProp h' 1 ''measure'' = getProp example_store 1 ''measure''"
    unfolding l by simp
  moreover from e have "getProp h' 3 ''id'' = getProp h' 0 ''id''"
    by simp
  ultimately show ?thesis using r by (simp add: example_store_def getProp_def deref_def)
qed

section \<open>Properties of the renewal cycle\<close>

lemma getProp_append_keep: "a < length h \<Longrightarrow> getProp (h @ [u]) a k = getProp h a k"
  by (simp add: getProp_append)

lemma usage_document_frame:
  assumes fr: "\<And>r p. r < length h \<Longrightarrow> p = ''measured_usage'' \<or> p = ''measure'' \<Longrightarrow>
                 getProp h' r p = getProp h r p"
    and doc: "usage_document h a"
  shows "usage_document h' a"
proof -
  from doc obtain ms where ms: "getProp h a ''measured_usage'' = Some (JArr ms)"
    and typed: "list_all (\<lambda>r. case getProp h r ''measure'' of Some (JStr m) \<Rightarrow> True | _ \<Rightarrow> False) ms"
    by (auto simp: usage_document_def split: option.splits jsval.splits)
  have a: "a < length h" using ms by (rule getProp_valid)
  have "\<And>r. r \<in> set ms \<Longrightarrow> getProp h' r ''measure'' = getProp h r ''measure''"
  proof -
    fix r assume "r \<in> set ms"
    with typed obtain m where "getProp h r ''measure'' = Some (JStr m)"
      by (auto simp: list_all_iff str_case_iff)
    then have "r < length h" by (rule getProp_valid)
    then show "getProp h' r ''measure'' = getProp h r ''measure''" by (simp add: fr)
  qed
  with typed have "list_all (\<lambda>r. case getProp h' r ''measure'' of Some (JStr m) \<Rightarrow> True | _ \<Rightarrow> False) ms"
    by (simp add: list_all_iff)
  moreover have "getProp h' a ''measured_usage'' = Some (JArr ms)"
    using ms a by (simp add: fr)
  ultimately show ?thesis by (simp add: usage_document_def)
qed

lemma reportUsage_succeeds:
  assumes doc: "usage_document (objects s) d"
    and post: "reportsSucceed e"
  shows "\<exists>s' posted. reportUsage e (Some d) s = Inr ((None, None), s') \<and>
           calls s' = calls s @ [HttpPost posted] \<and>
           (\<forall>a. usage_document (objects s) a \<longrightarrow> usage_document (objects s') a)"
proof -
  from refreshUsage_returns[OF doc] obtain refreshed h1
    where r: "refreshUsage (monthStart e) (objects s) d = Inr (refreshed, h1)"
    by (metis surj_pair)
  note eff = refreshUsage_effect[OF r]
  obtain u where u: "deref (objects s) d = Some u"
    using r by (auto simp: refreshUsage_def split: option.splits)
  let ?h0 = "(objects s)[d := AList.update ''end'' (JNum (monthStart e))
                 (AList.update ''start'' (JNum (monthStart e)) u)]"
  from r u have z: "zeroUsage ?h0 d = Inr (refreshed, h1)" by (simp add: refreshUsage_def)
  have len: "length h1 = Suc (length (objects s))" "refreshed = length (objects s)"
    using zeroUsage_result[OF z] by simp_all
  then have "deref h1 refreshed = Some (h1 ! refreshed)" by (simp add: deref_def)
  then obtain usage h2 where san: "sanitizeUsageDoc e h1 refreshed = Inr (usage, h2)"
    and h2: "h2 = h1 @ [pick (h1 ! refreshed) (resourceUsageSchemaProperties e)]"
    by (simp add: sanitizeUsageDoc_def)
  from post obtain rr where rr: "collectorPost e (h2 ! usage) = (None, Some rr)"
      "statusCode rr = 201 \<or> statusCode rr = 409"
    by (auto simp: reportsSucceed_def)
  define s1 where "s1 = called (HttpPost (h2 ! usage)) (s\<lparr>objects := h2\<rparr>)"
  have cb: "\<exists>s'. reportUsageCallback e (h2 ! usage) (None, Some rr) s1 = ((None, None), s') \<and>
                 calls s' = calls s1 \<and> objects s' = objects s1"
    using rr(2) by (auto simp: reportUsageCallback_def)
  then obtain s' where s': "reportUsageCallback e (h2 ! usage) (None, Some rr) s1 = ((None, None), s')"
      "calls s' = calls s1" "objects s' = objects s1" by blast
  have res: "reportUsage e (Some d) s = Inr ((None, None), s')"
    using r san rr(1) s'(1) by (simp add: reportUsage_def s1_def)
  have c: "calls s' = calls s @ [HttpPost (h2 ! usage)]"
    using s'(2) by (simp add: s1_def called_def)
  have o: "objects s' = h2" using s'(3) by (simp add: s1_def called_def)
  have keep: "\<And>a. usage_document (objects s) a \<Longrightarrow> usage_document (objects s') a"
  proof -
    fix a assume a: "usage_document (objects s) a"
    show "usage_document (objects s') a"
    proof (rule usage_document_frame[OF _ a])
      fix r p
      assume rp: "r < length (objects s)" "p = ''measured_usage'' \<or> p = ''measure''"
      then have "getProp h1 r p = getProp (objects s) r p"
        using eff by auto
      moreover have "getProp h2 r p = getProp h1 r p"
        unfolding h2 using rp(1) len by (simp add: getProp_append)
      ultimately show "getProp (objects s') r p = getProp (objects s) r p"
        by (simp add: o)
    qed
  qed
  show ?thesis using res c keep by blast
qed

lemma getUsageDoc_succeeds:
  assumes "collectorGet e ident = (None, Some r)" "statusCode r = 200"
  shows "getUsageDoc e ident s =
           ((body r, None, None),
            s\<lparr>usage_getSuccess := usage_getSuccess s + 1, consecutiveGetFailures := 0,
              noGetEverHappened := False, calls := calls s @ [HttpGet ident]\<rparr>)"
  using assms by (simp add: getUsageDoc_def called_def)

lemma renewDocs_succeed:
  assumes "fetchesSucceed e (objects s) refs" and post: "reportsSucceed e"
  shows "\<exists>s' cs. renewDocs e refs numDocs s = Inr (numDocs + length refs, s') \<and>
           calls s' = calls s @ cs \<and> withoutRequests cs = []"
  using assms(1)
proof (induction refs arbitrary: numDocs s)
  case Nil
  then show ?case by (simp add: withoutRequests_def)
next
  case (Cons ident refs)
  from Cons.prems obtain r a where get: "collectorGet e ident = (None, Some r)" "statusCode r = 200"
      and b: "body r = Some a" and doc: "usage_document (objects s) a"
    by (auto simp: fetchesSucceed_def)
  define s1 where "s1 = s\<lparr>usage_getSuccess := usage_getSuccess s + 1, consecutiveGetFailures := 0,
              noGetEverHappened := False, calls := calls s @ [HttpGet ident]\<rparr>"
  have g: "getUsageDoc e ident s = ((Some a, None, None), s1)"
    using getUsageDoc_succeeds[OF get, of s] b by (simp add: s1_def)
  have doc1: "usage_document (objects s1) a" using doc by (simp add: s1_def)
  from reportUsage_succeeds[OF doc1 post] obtain s2 posted
    where rep: "reportUsage e (Some a) s1 = Inr ((None, None), s2)"
      and c2: "calls s2 = calls s1 @ [HttpPost posted]"
      and keep: "\<And>a. usage_document (objects s1) a \<Longrightarrow> usage_document (objects s2) a"
    by blast
  have o1: "objects s1 = objects s" by (simp add: s1_def)
  have "fetchesSucceed e (objects s2) refs"
    unfolding fetchesSucceed_def
  proof
    fix i assume "i \<in> set refs"
    with Cons.prems obtain r' a' where "collectorGet e i = (None, Some r')" "statusCode r' = 200"
      "body r' = Some a'" "usage_document (objects s) a'"
      by (auto simp: fetchesSucceed_def)
    then show "\<exists>r a. collectorGet e i = (None, Some r) \<and> statusCode r = 200 \<and>
                                body r = Some a \<and> usage_document (objects s2) a"
      using keep[of a'] o1 by auto
  qed
  from Cons.IH[OF this, of "numDocs + 1"] obtain s' cs
    where ih: "renewDocs e refs (numDocs + 1) s2 = Inr (numDocs + 1 + length refs, s')"
      "calls s' = calls s2 @ cs" "withoutRequests cs = []" by blast
  have "renewDocs e (ident # refs) numDocs s = Inr (numDocs + length (ident # refs), s')"
    using g rep ih(1) by simp
  moreover have "calls s' = calls s @ (HttpGet ident # HttpPost posted # cs)"
    using ih(2) c2 by (simp add: s1_def)
  moreover have "withoutRequests (HttpGet ident # HttpPost posted # cs) = []"
    using ih(3) by (simp add: withoutRequests_def)
  ultimately show ?case by blast
qed


lemma pageReads_append [simp]: "pageReads (xs @ ys) = pageReads xs + pageReads ys"
  by (simp add: pageReads_def)

lemma withoutRequests_append [simp]:
  "withoutRequests (xs @ ys) = withoutRequests xs @ withoutRequests ys"
  by (simp add: withoutRequests_def)

lemma getUsageDoc_calls: "calls (snd (getUsageDoc e ident s)) = calls s @ [HttpGet ident]"
  by (simp add: getUsageDoc_def called_def registerError_def Let_def split: prod.splits)

lemma reportUsageCallback_calls: "calls (snd (reportUsageCallback e u rep s)) = calls s"
  by (simp add: reportUsageCallback_def registerError_def split: prod.splits)

lemma reportUsage_calls:
  "reportUsage e doc s = Inr res \<Longrightarrow> \<exists>posted. calls (snd res) = calls s @ [HttpPost posted]"
  by (auto simp: reportUsage_def reportUsageCallback_calls called_def
           split: option.splits sum.splits prod.splits)

lemma pageReads_called_FailureCb [simp]:
  "pageReads (calls (called (FailureCb c r) s)) = pageReads (calls s)"
  by (simp add: called_def pageReads_def)

lemma renewDocs_final_pageReads:
  "pageReads (calls (finalState (renewDocs e refs numDocs s))) = pageReads (calls s)"
proof (induction refs arbitrary: numDocs s)
  case Nil
  show ?case by (simp add: finalState_def)
next
  case (Cons ident refs)
  obtain doc err resp s1 where g: "getUsageDoc e ident s = ((doc, err, resp), s1)"
    by (metis surj_pair)
  have c1: "pageReads (calls s1) = pageReads (calls s)"
    using getUsageDoc_calls[of e ident s] g by (simp add: pageReads_def)
  show ?case
  proof (cases "err \<noteq> None \<or> resp \<noteq> None")
    case True
    with g have "renewDocs e (ident # refs) numDocs s =
        renewDocs e refs numDocs (called (FailureCb (GetError ident err resp) resp) s1)"
      by simp
    then show ?thesis using Cons.IH c1 by simp
  next
    case False
    show ?thesis
    proof (cases "reportUsage e doc s1")
      case (Inl ex)
      with g False have "renewDocs e (ident # refs) numDocs s = Inl (ex, s1)" by simp
      then show ?thesis using c1 by (simp add: finalState_def)
    next
      case (Inr res)
      obtain err2 resp2 s2 where res: "res = ((err2, resp2), s2)" by (metis surj_pair)
      from reportUsage_calls[OF Inr] have c2: "pageReads (calls s2) = pageReads (calls s1)"
        by (auto simp: res pageReads_def)
      show ?thesis
      proof (cases "err2 \<noteq> None \<or> resp2 \<noteq> None")
        case True
        with g False Inr res have "renewDocs e (ident # refs) numDocs s =
            renewDocs e refs numDocs (called (FailureCb (ReportError doc err2 resp2) resp2) s2)"
          by simp
        then show ?thesis using Cons.IH c1 c2 by simp
      next
        case F2: False
        with g False Inr res have "renewDocs e (ident # refs) numDocs s =
            renewDocs e refs (numDocs + 1) s2"
          by simp
        then show ?thesis using Cons.IH c1 c2 by simp
      qed
    qed
  qed
qed

lemma renewDocs_pageReads:
  "renewDocs e refs numDocs s = Inr (n, s') \<Longrightarrow> pageReads (calls s') = pageReads (calls s)"
  "renewDocs e refs numDocs s = Inl (ex, s') \<Longrightarrow> pageReads (calls s') = pageReads (calls s)"
  using renewDocs_final_pageReads[of e refs numDocs s] by (simp_all add: finalState_def)

declare renewUsagePage.simps [simp del]

lemma renewUsagePage_reads_bound:
  "pageReads (calls (renewUsagePage e startId endId skip s)) \<le>
     pageReads (calls s) + (length (inRange startId endId (carryOver e)) - skip) + 1"
proof (induction e startId endId skip s rule: renewUsagePage.induct)
  case (1 e startId endId skip s)
  define s0 where "s0 = called (AllDocs startId endId (pageSize e) skip) s"
  have r0: "pageReads (calls s0) = pageReads (calls s) + 1"
    by (simp add: s0_def called_def pageReads_def)
  show ?case
  proof (cases "allDocs e startId endId (pageSize e) skip")
    case (Inl err)
    then show ?thesis
      by (subst renewUsagePage.simps) (simp add: called_def registerError_def pageReads_def)
  next
    case (Inr usage)
    define s1 where "s1 = s0\<lparr>db_docsRead := db_docsRead s0 + length usage,
                       db_readSuccess := db_readSuccess s0 + 1\<rparr>"
    have r1: "pageReads (calls s1) = pageReads (calls s) + 1" using r0 by (simp add: s1_def)
    show ?thesis
    proof (cases "length usage = 0")
      case True
      with Inr show ?thesis
        by (subst renewUsagePage.simps) (simp add: called_def pageReads_def)
    next
      case False
      show ?thesis
      proof (cases "renewDocs e (map collector_id usage) 0 s1")
        case (Inl x)
        then obtain ex s2 where x: "renewDocs e (map collector_id usage) 0 s1 = Inl (ex, s2)"
          by (metis surj_pair)
        from renewDocs_pageReads(2)[OF x] r1 have "pageReads (calls s2) = pageReads (calls s) + 1" by simp
        with Inr False x show ?thesis
          by (subst renewUsagePage.simps) (simp add: called_def s0_def s1_def pageReads_def)
      next
        case Inr2: (Inr y)
        then obtain numDocs s2 where y: "renewDocs e (map collector_id usage) 0 s1 = Inr (numDocs, s2)"
          by (metis surj_pair)
        from renewDocs_pageReads(1)[OF y] r1 have r2: "pageReads (calls s2) = pageReads (calls s) + 1" by simp
        show ?thesis
        proof (cases "numDocs = length usage \<and> \<not> length usage < pageSize e")
          case True
          have "usage = take (pageSize e) (drop skip (inRange startId endId (carryOver e)))"
            using Inr by (simp add: allDocs_def split: option.splits)
          with False have lt: "skip < length (inRange startId endId (carryOver e))"
            by (cases "skip < length (inRange startId endId (carryOver e))") simp_all
          have ih: "pageReads (calls (renewUsagePage e startId endId (skip + numDocs) s2)) \<le>
             pageReads (calls s2) + (length (inRange startId endId (carryOver e)) - (skip + numDocs)) + 1"
            using "1.IH"[OF refl Inr refl False y[unfolded s1_def s0_def] refl] True by simp
          have "renewUsagePage e startId endId skip s = renewUsagePage e startId endId (skip + numDocs) s2"
            using Inr False y True
            by (subst renewUsagePage.simps) (simp add: s0_def s1_def)
          then show ?thesis using ih r2 lt True False by (cases usage) auto
        next
          case F: False
          with Inr \<open>length usage \<noteq> 0\<close> y r2 show ?thesis
            by (subst renewUsagePage.simps) (auto simp add: called_def s0_def s1_def pageReads_def)
        qed
      qed
    qed
  qed
qed

lemma page_empty:
  assumes "allDocs e startId endId (pageSize e) skip = Inr []"
  shows "calls (renewUsagePage e startId endId skip s) =
           calls s @ [AllDocs startId endId (pageSize e) skip, SuccessCb]"
  using assms by (subst renewUsagePage.simps) (simp add: called_def)

lemma page_processed:
  assumes scan: "allDocs e startId endId (pageSize e) skip = Inr usage"
    and nonempty: "usage \<noteq> []"
    and get: "fetchesSucceed e (objects s) (map collector_id usage)"
    and post: "reportsSucceed e"
  shows "\<exists>s' cs. renewUsagePage e startId endId skip s =
                    (if length usage < pageSize e then called SuccessCb s'
                     else renewUsagePage e startId endId (skip + length usage) s') \<and>
                 calls s' = calls s @ AllDocs startId endId (pageSize e) skip # cs \<and>
                 withoutRequests cs = []"
proof -
  define s1 where "s1 = (called (AllDocs startId endId (pageSize e) skip) s)
                          \<lparr>db_docsRead := db_docsRead s + length usage,
                           db_readSuccess := db_readSuccess s + 1\<rparr>"
  have o1: "objects s1 = objects s" and c1: "calls s1 = calls s @ [AllDocs startId endId (pageSize e) skip]"
    by (simp_all add: s1_def called_def)
  from get o1 have "fetchesSucceed e (objects s1) (map collector_id usage)" by simp
  from renewDocs_succeed[OF this post, of 0] obtain s' cs
    where r: "renewDocs e (map collector_id usage) 0 s1 = Inr (length usage, s')"
      and c: "calls s' = calls s1 @ cs" "withoutRequests cs = []"
    by auto
  have "renewUsagePage e startId endId skip s =
          (if length usage < pageSize e then called SuccessCb s'
           else renewUsagePage e startId endId (skip + length usage) s')"
    using scan nonempty r
    by (subst renewUsagePage.simps) (simp add: s1_def called_def)
  then show ?thesis using c c1 by auto
qed

text \<open>
  Claim C2. With a positive page size, scans that do not fail, and every fetch and every
  report of the records in range succeeding: a range of exactly \<open>pageSize\<close> records
  is renewed with two page reads, at \<open>skip = 0\<close> and at \<open>skip = pageSize\<close>, followed
  by \<open>success\<close>; a range of \<open>pageSize - 1\<close> records with one page read followed by
  \<open>success\<close>. \<open>renewUsagePage\<close> is a total function, and whatever the replies are it
  reads at most one page more than there are records in range.
\<close>

theorem pagination_page_reads:
  assumes size: "0 < pageSize e"
    and scans: "\<forall>skip. allDocsError e skip = None"
    and get: "fetchesSucceed e (objects s) (map collector_id (inRange startId endId (carryOver e)))"
    and post: "reportsSucceed e"
  shows "(length (inRange startId endId (carryOver e)) = pageSize e \<longrightarrow>
            (\<exists>cs. calls (renewUsagePage e startId endId 0 s) = calls s @ cs \<and>
                  withoutRequests cs =
                    [AllDocs startId endId (pageSize e) 0,
                     AllDocs startId endId (pageSize e) (pageSize e), SuccessCb])) \<and>
         (length (inRange startId endId (carryOver e)) = pageSize e - 1 \<longrightarrow>
            (\<exists>cs. calls (renewUsagePage e startId endId 0 s) = calls s @ cs \<and>
                  withoutRequests cs = [AllDocs startId endId (pageSize e) 0, SuccessCb])) \<and>
         pageReads (calls (renewUsagePage e startId endId 0 s)) \<le>
           pageReads (calls s) + length (inRange startId endId (carryOver e)) + 1"
proof (intro conjI impI)
  let ?R = "inRange startId endId (carryOver e)"
  let ?p = "pageSize e"
  have scan: "\<And>skip. allDocs e startId endId ?p skip = Inr (take ?p (drop skip ?R))"
    using scans by (simp add: allDocs_def)
  {
    assume full: "length ?R = ?p"
    have first: "allDocs e startId endId ?p 0 = Inr ?R" using scan[of 0] full by simp
    have ne: "?R \<noteq> []" using full size by auto
    from page_processed[OF first ne get post] full obtain s' cs
      where step: "renewUsagePage e startId endId 0 s = renewUsagePage e startId endId ?p s'"
        and c: "calls s' = calls s @ AllDocs startId endId ?p 0 # cs" "withoutRequests cs = []"
      by auto
    have second: "allDocs e startId endId ?p ?p = Inr []" using scan[of ?p] full by simp
    have "calls (renewUsagePage e startId endId 0 s) =
            calls s @ (AllDocs startId endId ?p 0 # cs @ [AllDocs startId endId ?p ?p, SuccessCb])"
      using step page_empty[OF second, of s'] c(1) by simp
    moreover have "withoutRequests (AllDocs startId endId ?p 0 # cs @ [AllDocs startId endId ?p ?p, SuccessCb]) =
        [AllDocs startId endId ?p 0, AllDocs startId endId ?p ?p, SuccessCb]"
      using c(2) by (simp add: withoutRequests_def)
    ultimately show "\<exists>cs. calls (renewUsagePage e startId endId 0 s) = calls s @ cs \<and>
                  withoutRequests cs =
                    [AllDocs startId endId ?p 0, AllDocs startId endId ?p ?p, SuccessCb]"
      by blast
  }
  {
    assume short: "length ?R = ?p - 1"
    have first: "allDocs e startId endId ?p 0 = Inr ?R" using scan[of 0] short by simp
    show "\<exists>cs. calls (renewUsagePage e startId endId 0 s) = calls s @ cs \<and>
                  withoutRequests cs = [AllDocs startId endId ?p 0, SuccessCb]"
    proof (cases "?R = []")
      case True
      with first page_empty[of e startId endId 0 s] show ?thesis
        by (simp add: withoutRequests_def)
    next
      case False
      have lt: "length ?R < ?p" using short size by simp
      from page_processed[OF first False get post] lt obtain s' cs
        where step: "renewUsagePage e startId endId 0 s = called SuccessCb s'"
          and c: "calls s' = calls s @ AllDocs startId endId ?p 0 # cs" "withoutRequests cs = []"
        by auto
      have "calls (renewUsagePage e startId endId 0 s) =
              calls s @ (AllDocs startId endId ?p 0 # cs @ [SuccessCb])"
        using step c(1) by (simp add: called_def)
      moreover have "withoutRequests (AllDocs startId endId ?p 0 # cs @ [SuccessCb]) =
          [AllDocs startId endId ?p 0, SuccessCb]"
        using c(2) by (simp add: withoutRequests_def)
      ultimately show ?thesis by blast
    qed
  }
  show "pageReads (calls (renewUsagePage e startId endId 0 s)) \<le>
           pageReads (calls s) + length ?R + 1"
    using renewUsagePage_reads_bound[of e startId endId 0 s] by simp
qed


lemma example_range:
  "inRange ''t/0001706744999400'' ''t/0001709251199999'' example_rows = example_rows"
  by (simp add: inRange_def example_rows_def)

lemma example_document: "usage_document example_store 0"
  by (simp add: ex_simps)

lemma example_fetches:
  "fetchesSucceed (example_env p example_rows code) (objects (initial example_store))
     (map collector_id (inRange ''t/0001706744999400'' ''t/0001709251199999''
        (carryOver (example_env p example_rows code))))"
  using example_document
  by (simp add: fetchesSucceed_def example_env_def initial_def)

theorem pagination_page_reads_witness:
  "(\<exists>cs. calls (renewUsagePage (example_env 2 example_rows 201)
               ''t/0001706744999400'' ''t/0001709251199999'' 0 (initial example_store)) = cs \<and>
         withoutRequests cs =
           [AllDocs ''t/0001706744999400'' ''t/0001709251199999'' 2 0,
            AllDocs ''t/0001706744999400'' ''t/0001709251199999'' 2 2, SuccessCb]) \<and>
   (\<exists>cs. calls (renewUsagePage (example_env 3 example_rows 201)
               ''t/0001706744999400'' ''t/0001709251199999'' 0 (initial example_store)) = cs \<and>
         withoutRequests cs =
           [AllDocs ''t/0001706744999400'' ''t/0001709251199999'' 3 0, SuccessCb])"
proof -
  have post: "reportsSucceed (example_env p example_rows 201)" for p
    by (simp add: reportsSucceed_def example_env_def)
  have scans: "\<forall>skip. allDocsError (example_env p example_rows 201) skip = None" for p
    by (simp add: example_env_def)
  have len: "length (inRange ''t/0001706744999400'' ''t/0001709251199999''
               (carryOver (example_env p example_rows 201))) = 2" for p
    by (simp add: example_env_def example_range) (simp add: example_rows_def)
  have p: "pageSize (example_env p example_rows 201) = p" for p
    by (simp add: example_env_def)
  have c: "calls (initial example_store) = []" by (simp add: initial_def)
  from pagination_page_reads [OF _ scans example_fetches post, of 2]
       pagination_page_reads [OF _ scans example_fetches post, of 3]
  show ?thesis
    unfolding len p c by simp
qed

lemma refreshUsage_length:
  assumes "refreshUsage t h usage = Inr (a', h')"
  shows "a' = length h \<and> length h' = Suc (length h)"
proof -
  from assms obtain u where u: "deref h usage = Some u"
    by (auto simp: refreshUsage_def split: option.splits)
  with assms have "zeroUsage (h[usage := AList.update ''end'' (JNum t)
                     (AList.update ''start'' (JNum t) u)]) usage = Inr (a', h')"
    by (simp add: refreshUsage_def)
  from zeroUsage_result[OF this] show ?thesis by simp
qed

text \<open>
  Claim C3. When the range scan of a page fails with an error, \<open>renewUsagePage\<close> adds
  one to \<open>statistics.db.readFailure\<close>, records the error in \<open>errors.lastError\<close>
  with its timestamp, and calls \<open>failure\<close> with that error; after the scan nothing is
  fetched or reported and no further page is read. The callback does not return after
  calling \<open>failure\<close>: it ends in a TypeError on \<open>usage.length\<close>.
\<close>

theorem scan_failure_aborts:
  assumes "allDocs e startId endId (pageSize e) skip = Inl err"
  shows "renewUsagePage e startId endId skip s =
     s\<lparr>db_readFailure := db_readFailure s + 1,
       lastError := Formatted (FailedReadingUsage startId endId (pageSize e)) (Some err) None,
       lastErrorTimestamp := Some (now e),
       calls := calls s @ [AllDocs startId endId (pageSize e) skip,
                           FailureCb (ScanError err) None, Uncaught TypeError]\<rparr>"
  using assms by (subst renewUsagePage.simps) (simp add: called_def registerError_def)

theorem scan_failure_aborts_witness:
  "allDocs ((example_env 2 example_rows 201)\<lparr>allDocsError := (\<lambda>skip. Some (Error ''down''))\<rparr>)
     ''t/0001706744999400'' ''t/0001709251199999'' 2 0 = Inl (Error ''down'') \<and>
   db_readFailure (renewUsagePage
       ((example_env 2 example_rows 201)\<lparr>allDocsError := (\<lambda>skip. Some (Error ''down''))\<rparr>)
       ''t/0001706744999400'' ''t/0001709251199999'' 0 (initial example_store)) = 1 \<and>
   calls (renewUsagePage
       ((example_env 2 example_rows 201)\<lparr>allDocsError := (\<lambda>skip. Some (Error ''down''))\<rparr>)
       ''t/0001706744999400'' ''t/0001709251199999'' 0 (initial example_store)) =
     [AllDocs ''t/0001706744999400'' ''t/0001709251199999'' 2 0,
      FailureCb (ScanError (Error ''down'')) None, Uncaught TypeError]"
proof -
  let ?e = "(example_env 2 example_rows 201)\<lparr>allDocsError := (\<lambda>skip. Some (Error ''down''))\<rparr>"
  have p: "pageSize ?e = 2" by (simp add: example_env_def)
  have scan: "allDocs ?e ''t/0001706744999400'' ''t/0001709251199999'' (pageSize ?e) 0 =
                Inl (Error ''down'')"
    by (simp add: allDocs_def example_env_def)
  from scan_failure_aborts [OF scan, of "initial example_store"] scan
  show ?thesis unfolding p by (simp add: initial_def)
qed

lemma reportUsage_posts:
  assumes doc: "usage_document (objects s) d"
  shows "\<exists>h2 posted. reportUsage e (Some d) s =
             Inr (reportUsageCallback e posted (collectorPost e posted)
                    (called (HttpPost posted) (s\<lparr>objects := h2\<rparr>))) \<and>
           (\<forall>a. usage_document (objects s) a \<longrightarrow> usage_document h2 a)"
proof -
  from refreshUsage_returns[OF doc] obtain refreshed h1
    where r: "refreshUsage (monthStart e) (objects s) d = Inr (refreshed, h1)"
    by (metis surj_pair)
  note eff = refreshUsage_effect[OF r]
  have len: "length h1 = Suc (length (objects s))" "refreshed = length (objects s)"
    using refreshUsage_length[OF r] by simp_all
  then have "deref h1 refreshed = Some (h1 ! refreshed)" by (simp add: deref_def)
  then obtain usage h2 where san: "sanitizeUsageDoc e h1 refreshed = Inr (usage, h2)"
    and h2: "h2 = h1 @ [pick (h1 ! refreshed) (resourceUsageSchemaProperties e)]"
    by (simp add: sanitizeUsageDoc_def)
  have res: "reportUsage e (Some d) s =
      Inr (reportUsageCallback e (h2 ! usage) (collectorPost e (h2 ! usage))
             (called (HttpPost (h2 ! usage)) (s\<lparr>objects := h2\<rparr>)))"
    using r san by (simp add: reportUsage_def)
  have keep: "\<And>a. usage_document (objects s) a \<Longrightarrow> usage_document h2 a"
  proof -
    fix a assume a: "usage_document (objects s) a"
    show "usage_document h2 a"
    proof (rule usage_document_frame[OF _ a])
      fix r p
      assume rp: "r < length (objects s)" "p = ''measured_usage'' \<or> p = ''measure''"
      then have "getProp h1 r p = getProp (objects s) r p"
        using eff by auto
      moreover have "getProp h2 r p = getProp h1 r p"
        unfolding h2 using rp(1) len by (simp add: getProp_append)
      ultimately show "getProp h2 r p = getProp (objects s) r p"
        by simp
    qed
  qed
  show ?thesis using res keep by blast
qed

lemma fetched_simps [simp]:
  "fetched [] = []" "fetched (HttpGet i # cs) = i # fetched cs"
  "fetched (HttpPost u # cs) = fetched cs" "fetched (xs @ ys) = fetched xs @ fetched ys"
  by (simp_all add: fetched_def)

lemma reported_simps [simp]:
  "reported [] = 0" "reported (HttpGet i # cs) = reported cs"
  "reported (HttpPost u # cs) = Suc (reported cs)" "reported (xs @ ys) = reported xs + reported ys"
  by (simp_all add: reported_def)

lemma renewDocs_conflict:
  assumes "fetchesSucceed e (objects s) refs" and post: "reportsConflict e"
  shows "\<exists>s' cs. renewDocs e refs numDocs s = Inr (numDocs + length refs, s') \<and>
           calls s' = calls s @ cs \<and> withoutRequests cs = [] \<and>
           fetched cs = refs \<and> reported cs = length refs \<and>
           usage_reportConflict s' = usage_reportConflict s + length refs \<and>
           usage_reportFailures s' = usage_reportFailures s \<and>
           consecutiveReportFailures s' = consecutiveReportFailures s"
  using assms(1)
proof (induction refs arbitrary: numDocs s)
  case Nil
  then show ?case by (simp add: withoutRequests_def)
next
  case (Cons ident refs)
  from Cons.prems obtain r a where get: "collectorGet e ident = (None, Some r)" "statusCode r = 200"
      and b: "body r = Some a" and doc: "usage_document (objects s) a"
    by (auto simp: fetchesSucceed_def)
  define s1 where "s1 = s\<lparr>usage_getSuccess := usage_getSuccess s + 1, consecutiveGetFailures := 0,
              noGetEverHappened := False, calls := calls s @ [HttpGet ident]\<rparr>"
  have g: "getUsageDoc e ident s = ((Some a, None, None), s1)"
    using getUsageDoc_succeeds[OF get, of s] b by (simp add: s1_def)
  have doc1: "usage_document (objects s1) a" using doc by (simp add: s1_def)
  from reportUsage_posts[OF doc1, of e] obtain h2 posted
    where rep0: "reportUsage e (Some a) s1 =
             Inr (reportUsageCallback e posted (collectorPost e posted)
                    (called (HttpPost posted) (s1\<lparr>objects := h2\<rparr>)))"
      and keep: "\<And>a. usage_document (objects s1) a \<Longrightarrow> usage_document h2 a"
    by blast
  from post obtain rr where rr: "collectorPost e posted = (None, Some rr)" "statusCode rr = 409"
    by (auto simp: reportsConflict_def)
  define s2 where "s2 = (called (HttpPost posted) (s1\<lparr>objects := h2\<rparr>))
                          \<lparr>usage_reportConflict := usage_reportConflict s1 + 1,
                           noReportEverHappened := False\<rparr>"
  have rep: "reportUsage e (Some a) s1 = Inr ((None, None), s2)"
    using rep0 rr by (simp add: reportUsageCallback_def s2_def called_def)
  have o2: "objects s2 = h2" and c2: "calls s2 = calls s @ [HttpGet ident, HttpPost posted]"
    and n2: "usage_reportConflict s2 = usage_reportConflict s + 1"
      "usage_reportFailures s2 = usage_reportFailures s"
      "consecutiveReportFailures s2 = consecutiveReportFailures s"
    by (simp_all add: s2_def s1_def called_def)
  have o1: "objects s1 = objects s" by (simp add: s1_def)
  have "fetchesSucceed e (objects s2) refs"
    unfolding fetchesSucceed_def
  proof
    fix i assume "i \<in> set refs"
    with Cons.prems obtain r' a' where "collectorGet e i = (None, Some r')" "statusCode r' = 200"
      "body r' = Some a'" "usage_document (objects s) a'"
      by (auto simp: fetchesSucceed_def)
    then show "\<exists>r a. collectorGet e i = (None, Some r) \<and> statusCode r = 200 \<and>
                                body r = Some a \<and> usage_document (objects s2) a"
      using keep[of a'] o1 o2 by auto
  qed
  from Cons.IH[OF this, of "numDocs + 1"] obtain s' cs
    where ih: "renewDocs e refs (numDocs + 1) s2 = Inr (numDocs + 1 + length refs, s')"
      "calls s' = calls s2 @ cs" "withoutRequests cs = []"
      "fetched cs = refs" "reported cs = length refs"
      "usage_reportConflict s' = usage_reportConflict s2 + length refs"
      "usage_reportFailures s' = usage_reportFailures s2"
      "consecutiveReportFailures s' = consecutiveReportFailures s2"
    by blast
  have "renewDocs e (ident # refs) numDocs s = Inr (numDocs + length (ident # refs), s')"
    using g rep ih(1) by simp
  moreover have "calls s' = calls s @ (HttpGet ident # HttpPost posted # cs)"
    using ih(2) c2 by simp
  moreover have "withoutRequests (HttpGet ident # HttpPost posted # cs) = []"
    using ih(3) by (simp add: withoutRequests_def)
  moreover have "fetched (HttpGet ident # HttpPost posted # cs) = ident # refs"
    "reported (HttpGet ident # HttpPost posted # cs) = length (ident # refs)"
    using ih(4,5) by simp_all
  moreover have "usage_reportConflict s' = usage_reportConflict s + length (ident # refs)"
    "usage_reportFailures s' = usage_reportFailures s"
    "consecutiveReportFailures s' = consecutiveReportFailures s"
    using ih(6,7,8) n2 by simp_all
  ultimately show ?case by blast
qed

lemma renewDocs_calls_grow:
  "\<exists>cs. calls (finalState (renewDocs e refs numDocs s)) = calls s @ cs"
proof (induction refs arbitrary: numDocs s)
  case Nil
  show ?case by (simp add: finalState_def)
next
  case (Cons ident refs)
  obtain doc err resp s1 where g: "getUsageDoc e ident s = ((doc, err, resp), s1)"
    by (metis surj_pair)
  have c1: "calls s1 = calls s @ [HttpGet ident]"
    using getUsageDoc_calls[of e ident s] g by simp
  show ?case
  proof (cases "err \<noteq> None \<or> resp \<noteq> None")
    case True
    with g have "renewDocs e (ident # refs) numDocs s =
        renewDocs e refs numDocs (called (FailureCb (GetError ident err resp) resp) s1)"
      by simp
    then show ?thesis
      using Cons.IH[of numDocs "called (FailureCb (GetError ident err resp) resp) s1"] c1
      by (auto simp: called_def)
  next
    case False
    show ?thesis
    proof (cases "reportUsage e doc s1")
      case (Inl ex)
      with g False have "renewDocs e (ident # refs) numDocs s = Inl (ex, s1)" by simp
      then show ?thesis using c1 by (simp add: finalState_def)
    next
      case (Inr res)
      obtain err2 resp2 s2 where res: "res = ((err2, resp2), s2)" by (metis surj_pair)
      from reportUsage_calls[OF Inr] obtain posted where c2: "calls s2 = calls s1 @ [HttpPost posted]"
        by (auto simp: res)
      show ?thesis
      proof (cases "err2 \<noteq> None \<or> resp2 \<noteq> None")
        case True
        with g False Inr res have "renewDocs e (ident # refs) numDocs s =
            renewDocs e refs numDocs (called (FailureCb (ReportError doc err2 resp2) resp2) s2)"
          by simp
        then show ?thesis
          using Cons.IH[of numDocs "called (FailureCb (ReportError doc err2 resp2) resp2) s2"] c1 c2
          by (auto simp: called_def)
      next
        case F2: False
        with g False Inr res have "renewDocs e (ident # refs) numDocs s =
            renewDocs e refs (numDocs + 1) s2"
          by simp
        then show ?thesis using Cons.IH[of "numDocs + 1" s2] c1 c2 by auto
      qed
    qed
  qed
qed

lemma renewUsagePage_first_call:
  "\<exists>cs. calls (renewUsagePage e startId endId skip s) =
          calls s @ AllDocs startId endId (pageSize e) skip # cs"
proof (induction e startId endId skip s rule: renewUsagePage.induct)
  case (1 e startId endId skip s)
  define s0 where "s0 = called (AllDocs startId endId (pageSize e) skip) s"
  show ?case
  proof (cases "allDocs e startId endId (pageSize e) skip")
    case (Inl err)
    then show ?thesis
      by (subst renewUsagePage.simps) (simp add: called_def registerError_def)
  next
    case (Inr usage)
    define s1 where "s1 = s0\<lparr>db_docsRead := db_docsRead s0 + length usage,
                       db_readSuccess := db_readSuccess s0 + 1\<rparr>"
    have c1: "calls s1 = calls s @ [AllDocs startId endId (pageSize e) skip]"
      by (simp add: s1_def s0_def called_def)
    show ?thesis
    proof (cases "length usage = 0")
      case True
      with Inr show ?thesis
        by (subst renewUsagePage.simps) (simp add: called_def)
    next
      case False
      from renewDocs_calls_grow[of e "map collector_id usage" 0 s1] obtain cs
        where g: "calls (finalState (renewDocs e (map collector_id usage) 0 s1)) = calls s1 @ cs"
        by blast
      show ?thesis
      proof (cases "renewDocs e (map collector_id usage) 0 s1")
        case (Inl x)
        then obtain ex s2 where x: "renewDocs e (map collector_id usage) 0 s1 = Inl (ex, s2)"
          by (metis surj_pair)
        with g have "calls s2 = calls s1 @ cs" by (simp add: finalState_def)
        with Inr False x c1 show ?thesis
          by (subst renewUsagePage.simps) (simp add: called_def s0_def s1_def)
      next
        case Inr2: (Inr y)
        then obtain numDocs s2 where y: "renewDocs e (map collector_id usage) 0 s1 = Inr (numDocs, s2)"
          by (metis surj_pair)
        with g have c2: "calls s2 = calls s1 @ cs" by (simp add: finalState_def)
        show ?thesis
        proof (cases "numDocs = length usage \<and> \<not> length usage < pageSize e")
          case True
          from "1.IH"[OF refl Inr refl False y[unfolded s1_def s0_def] refl] True
          obtain cs' where "calls (renewUsagePage e startId endId (skip + numDocs) s2) =
              calls s2 @ AllDocs startId endId (pageSize e) (skip + numDocs) # cs'"
            by auto
          moreover have "renewUsagePage e startId endId skip s = renewUsagePage e startId endId (skip + numDocs) s2"
            using Inr False y True
            by (subst renewUsagePage.simps) (simp add: s0_def s1_def)
          ultimately show ?thesis using c1 c2 by simp
        next
          case F: False
          with Inr \<open>length usage \<noteq> 0\<close> y c1 c2 show ?thesis
            by (subst renewUsagePage.simps) (auto simp add: called_def s0_def s1_def)
        qed
      qed
    qed
  qed
qed


text \<open>
  Claim C5. On a 409 response the callback of \<open>reportUsage\<close> calls \<open>cb()\<close> with no
  error and no response, adds one to \<open>statistics.usage.reportConflict\<close> and leaves
  \<open>statistics.usage.reportFailures\<close> as it was. A page whose fetches succeed and whose
  reports are all answered with 409 is processed to its end: every record of the page is
  fetched, in order, and reported, \<open>failure\<close> is not called and nothing is thrown, the
  conflict counter grows by the length of the page while the failure counter and the
  failure streak stay, and then a short page ends in \<open>success\<close> and a full page is
  followed by the scan of the next page. In the page loop a record answered with 409
  counts as reported, whatever happens to the records after it.
\<close>

theorem conflict_proceeds:
  assumes conflict: "reportsConflict e"
    and scan: "allDocs e startId endId (pageSize e) skip = Inr page"
    and nonempty: "page \<noteq> []"
    and get: "fetchesSucceed e (objects s) (map collector_id page)"
  shows "(\<forall>r usage s0. statusCode r = 409 \<longrightarrow>
            reportUsageCallback e usage (None, Some r) s0 =
              ((None, None),
               s0\<lparr>usage_reportConflict := usage_reportConflict s0 + 1,
                  noReportEverHappened := False\<rparr>)) \<and>
         (\<exists>s' cs rest.
            renewUsagePage e startId endId skip s =
              (if length page < pageSize e then called SuccessCb s'
               else renewUsagePage e startId endId (skip + length page) s') \<and>
            calls s' = calls s @ AllDocs startId endId (pageSize e) skip # cs \<and>
            calls (renewUsagePage e startId endId skip s) =
              calls s' @ (if length page < pageSize e then [SuccessCb]
                          else AllDocs startId endId (pageSize e) (skip + length page) # rest) \<and>
            withoutRequests cs = [] \<and>
            fetched cs = map collector_id page \<and>
            reported cs = length page \<and>
            usage_reportConflict s' = usage_reportConflict s + length page \<and>
            usage_reportFailures s' = usage_reportFailures s \<and>
            consecutiveReportFailures s' = consecutiveReportFailures s) \<and>
         (\<forall>ident d s1 refreshed h1 usage h2 r refs numDocs sa.
            getUsageDoc e ident sa = ((Some d, None, None), s1) \<and>
            refreshUsage (monthStart e) (objects s1) d = Inr (refreshed, h1) \<and>
            sanitizeUsageDoc e h1 refreshed = Inr (usage, h2) \<and>
            collectorPost e (h2 ! usage) = (None, Some r) \<and> statusCode r = 409 \<longrightarrow>
            (\<exists>s2. reportUsage e (Some d) s1 = Inr ((None, None), s2) \<and>
                  renewDocs e (ident # refs) numDocs sa = renewDocs e refs (numDocs + 1) s2 \<and>
                  calls s2 = calls s1 @ [HttpPost (h2 ! usage)] \<and>
                  usage_reportConflict s2 = usage_reportConflict s1 + 1 \<and>
                  usage_reportFailures s2 = usage_reportFailures s1))"
proof (intro conjI)
  show "\<forall>r usage s0. statusCode r = 409 \<longrightarrow>
            reportUsageCallback e usage (None, Some r) s0 =
              ((None, None),
               s0\<lparr>usage_reportConflict := usage_reportConflict s0 + 1,
                  noReportEverHappened := False\<rparr>)"
    by (simp add: reportUsageCallback_def)
next
  define s1 where "s1 = (called (AllDocs startId endId (pageSize e) skip) s)
                          \<lparr>db_docsRead := db_docsRead s + length page,
                           db_readSuccess := db_readSuccess s + 1\<rparr>"
  have o1: "objects s1 = objects s"
    and c1: "calls s1 = calls s @ [AllDocs startId endId (pageSize e) skip]"
    and n1: "usage_reportConflict s1 = usage_reportConflict s"
      "usage_reportFailures s1 = usage_reportFailures s"
      "consecutiveReportFailures s1 = consecutiveReportFailures s"
    by (simp_all add: s1_def called_def)
  from get o1 have "fetchesSucceed e (objects s1) (map collector_id page)" by simp
  from renewDocs_conflict[OF this conflict, of 0] obtain s' cs
    where r: "renewDocs e (map collector_id page) 0 s1 = Inr (length page, s')"
      and c: "calls s' = calls s1 @ cs" "withoutRequests cs = []"
        "fetched cs = map collector_id page" "reported cs = length page"
      and n: "usage_reportConflict s' = usage_reportConflict s1 + length page"
        "usage_reportFailures s' = usage_reportFailures s1"
        "consecutiveReportFailures s' = consecutiveReportFailures s1"
    by auto
  have step: "renewUsagePage e startId endId skip s =
          (if length page < pageSize e then called SuccessCb s'
           else renewUsagePage e startId endId (skip + length page) s')"
    using scan nonempty r
    by (subst renewUsagePage.simps) (simp add: s1_def called_def)
  from renewUsagePage_first_call[of e startId endId "skip + length page" s'] obtain rest
    where nxt: "calls (renewUsagePage e startId endId (skip + length page) s') =
              calls s' @ AllDocs startId endId (pageSize e) (skip + length page) # rest"
    by blast
  have log: "calls (renewUsagePage e startId endId skip s) =
              calls s' @ (if length page < pageSize e then [SuccessCb]
                          else AllDocs startId endId (pageSize e) (skip + length page) # rest)"
    using step nxt by (simp add: called_def)
  show "\<exists>s' cs rest.
            renewUsagePage e startId endId skip s =
              (if length page < pageSize e then called SuccessCb s'
               else renewUsagePage e startId endId (skip + length page) s') \<and>
            calls s' = calls s @ AllDocs startId endId (pageSize e) skip # cs \<and>
            calls (renewUsagePage e startId endId skip s) =
              calls s' @ (if length page < pageSize e then [SuccessCb]
                          else AllDocs startId endId (pageSize e) (skip + length page) # rest) \<and>
            withoutRequests cs = [] \<and>
            fetched cs = map collector_id page \<and>
            reported cs = length page \<and>
            usage_reportConflict s' = usage_reportConflict s + length page \<and>
            usage_reportFailures s' = usage_reportFailures s \<and>
            consecutiveReportFailures s' = consecutiveReportFailures s"
    using step log c c1 n n1 by (intro exI[of _ s'] exI[of _ cs] exI[of _ rest]) simp
next
  show "\<forall>ident d s1 refreshed h1 usage h2 r refs numDocs sa.
            getUsageDoc e ident sa = ((Some d, None, None), s1) \<and>
            refreshUsage (monthStart e) (objects s1) d = Inr (refreshed, h1) \<and>
            sanitizeUsageDoc e h1 refreshed = Inr (usage, h2) \<and>
            collectorPost e (h2 ! usage) = (None, Some r) \<and> statusCode r = 409 \<longrightarrow>
            (\<exists>s2. reportUsage e (Some d) s1 = Inr ((None, None), s2) \<and>
                  renewDocs e (ident # refs) numDocs sa = renewDocs e refs (numDocs + 1) s2 \<and>
                  calls s2 = calls s1 @ [HttpPost (h2 ! usage)] \<and>
                  usage_reportConflict s2 = usage_reportConflict s1 + 1 \<and>
                  usage_reportFailures s2 = usage_reportFailures s1)"
  proof (intro allI impI, elim conjE)
    fix ident d s1 refreshed h1 usage h2 r refs numDocs sa
    assume g: "getUsageDoc e ident sa = ((Some d, None, None), s1)"
      and refresh: "refreshUsage (monthStart e) (objects s1) d = Inr (refreshed, h1)"
      and sanitize: "sanitizeUsageDoc e h1 refreshed = Inr (usage, h2)"
      and post: "collectorPost e (h2 ! usage) = (None, Some r)"
      and c409: "statusCode r = 409"
    define s2 where "s2 = (called (HttpPost (h2 ! usage)) (s1\<lparr>objects := h2\<rparr>))
                          \<lparr>usage_reportConflict := usage_reportConflict s1 + 1,
                           noReportEverHappened := False\<rparr>"
    have rep: "reportUsage e (Some d) s1 = Inr ((None, None), s2)"
      using refresh sanitize post c409
      by (simp add: reportUsage_def reportUsageCallback_def s2_def called_def)
    have "renewDocs e (ident # refs) numDocs sa = renewDocs e refs (numDocs + 1) s2"
      using g rep by simp
    moreover have "calls s2 = calls s1 @ [HttpPost (h2 ! usage)]"
      "usage_reportConflict s2 = usage_reportConflict s1 + 1"
      "usage_reportFailures s2 = usage_reportFailures s1"
      by (simp_all add: s2_def called_def)
    ultimately show "\<exists>s2. reportUsage e (Some d) s1 = Inr ((None, None), s2) \<and>
                  renewDocs e (ident # refs) numDocs sa = renewDocs e refs (numDocs + 1) s2 \<and>
                  calls s2 = calls s1 @ [HttpPost (h2 ! usage)] \<and>
                  usage_reportConflict s2 = usage_reportConflict s1 + 1 \<and>
                  usage_reportFailures s2 = usage_reportFailures s1"
      using rep by blast
  qed
qed

theorem conflict_proceeds_witness:
  "withoutRequests (calls (renewUsagePage (example_env 2 example_rows 409)
       ''t/0001706744999400'' ''t/0001709251199999'' 0 (initial example_store))) =
     [AllDocs ''t/0001706744999400'' ''t/0001709251199999'' 2 0,
      AllDocs ''t/0001706744999400'' ''t/0001709251199999'' 2 2, SuccessCb] \<and>
   fetched (calls (renewUsagePage (example_env 2 example_rows 409)
       ''t/0001706744999400'' ''t/0001709251199999'' 0 (initial example_store))) =
     [''U1'', ''U2''] \<and>
   reported (calls (renewUsagePage (example_env 2 example_rows 409)
       ''t/0001706744999400'' ''t/0001709251199999'' 0 (initial example_store))) = 2 \<and>
   usage_reportConflict (renewUsagePage (example_env 2 example_rows 409)
       ''t/0001706744999400'' ''t/0001709251199999'' 0 (initial example_store)) = 2 \<and>
   usage_reportFailures (renewUsagePage (example_env 2 example_rows 409)
       ''t/0001706744999400'' ''t/0001709251199999'' 0 (initial example_store)) = 0"
proof -
  let ?e = "example_env 2 example_rows 409"
  let ?a = "''t/0001706744999400''" and ?b = "''t/0001709251199999''"
  have conflict: "reportsConflict ?e"
    by (simp add: reportsConflict_def example_env_def)
  have p: "pageSize ?e = 2" by (simp add: example_env_def)
  have scan: "allDocs ?e ?a ?b (pageSize ?e) 0 = Inr example_rows"
    by (simp add: allDocs_def example_env_def example_range) (simp add: example_rows_def)
  have ne: "example_rows \<noteq> []" by (simp add: example_rows_def)
  have len: "length example_rows = 2" and ids: "map collector_id example_rows = [''U1'', ''U2'']"
    by (simp_all add: example_rows_def)
  have get: "fetchesSucceed ?e (objects (initial example_store)) (map collector_id example_rows)"
    using example_fetches[of 2 409] by (simp add: example_env_def example_range)
  have init: "calls (initial example_store) = []"
    "usage_reportConflict (initial example_store) = 0"
    "usage_reportFailures (initial example_store) = 0"
    by (simp_all add: initial_def)
  from conflict_proceeds [OF conflict scan ne get] obtain s' cs rest
    where step: "renewUsagePage ?e ?a ?b 0 (initial example_store) =
              (if length example_rows < pageSize ?e then called SuccessCb s'
               else renewUsagePage ?e ?a ?b (0 + length example_rows) s')"
      and c: "calls s' = calls (initial example_store) @ AllDocs ?a ?b (pageSize ?e) 0 # cs"
        "withoutRequests cs = []" "fetched cs = map collector_id example_rows"
        "reported cs = length example_rows"
      and n: "usage_reportConflict s' = usage_reportConflict (initial example_store) + length example_rows"
        "usage_reportFailures s' = usage_reportFailures (initial example_store)"
    by blast
  have second: "allDocs ?e ?a ?b (pageSize ?e) 2 = Inr []"
    by (simp add: allDocs_def example_env_def example_range) (simp add: example_rows_def)
  have fin: "renewUsagePage ?e ?a ?b 0 (initial example_store) = renewUsagePage ?e ?a ?b 2 s'"
    using step unfolding len p by (simp add: numeral_2_eq_2)
  have last: "renewUsagePage ?e ?a ?b 2 s' =
      called SuccessCb ((called (AllDocs ?a ?b 2 2) s')
        \<lparr>db_docsRead := db_docsRead s' + 0, db_readSuccess := db_readSuccess s' + 1\<rparr>)"
    using second by (subst renewUsagePage.simps) (simp add: p called_def)
  show ?thesis
    unfolding fin last using c n init
    by (simp add: called_def p len ids withoutRequests_def fetched_def reported_def)
qed

text \<open>
  Claim C10. After the callback of \<open>reportUsage\<close>, \<open>errors.consecutiveReportFailures\<close>
  is 0 for a 201 response, unchanged for a 409 response and one more in every other case;
  a 409 response changes nothing but \<open>statistics.usage.reportConflict\<close>, which grows by
  one, and \<open>errors.noReportEverHappened\<close>, which becomes false.
\<close>

theorem conflict_keeps_streak:
  "consecutiveReportFailures (snd (reportUsageCallback e usage (err, resp) s)) =
     (if err = None \<and> (case resp of Some r \<Rightarrow> statusCode r = 201 | None \<Rightarrow> False) then 0
      else if err = None \<and> (case resp of Some r \<Rightarrow> statusCode r = 409 | None \<Rightarrow> False)
      then consecutiveReportFailures s
      else consecutiveReportFailures s + 1) \<and>
   snd (reportUsageCallback e usage (None, Some \<lparr>statusCode = 409, body = b\<rparr>) s) =
     s\<lparr>usage_reportConflict := usage_reportConflict s + 1, noReportEverHappened := False\<rparr>"
  by (simp add: reportUsageCallback_def registerError_def)

theorem conflict_keeps_streak_witness:
  "consecutiveReportFailures
     (snd (reportUsageCallback (example_env 2 example_rows 409) []
             (None, Some \<lparr>statusCode = 409, body = None\<rparr>)
             ((initial example_store)\<lparr>consecutiveReportFailures := 3\<rparr>))) = 3 \<and>
   consecutiveReportFailures
     (snd (reportUsageCallback (example_env 2 example_rows 201) []
             (None, Some \<lparr>statusCode = 201, body = None\<rparr>)
             ((initial example_store)\<lparr>consecutiveReportFailures := 3\<rparr>))) = 0"
  using conflict_keeps_streak [of "example_env 2 example_rows 409" "[]" None
          "Some \<lparr>statusCode = 409, body = None\<rparr>"
          "(initial example_store)\<lparr>consecutiveReportFailures := 3\<rparr>"]
        conflict_keeps_streak [of "example_env 2 example_rows 201" "[]" None
          "Some \<lparr>statusCode = 201, body = None\<rparr>"
          "(initial example_store)\<lparr>consecutiveReportFailures := 3\<rparr>"]
  by simp


section \<open>The keys of the time range\<close>

declare toString.simps [simp del]

lemma digit_less: "x < y \<Longrightarrow> y < 10 \<Longrightarrow> digit x < digit y"
  by (simp add: digit_def less_char_def)

lemma length_lowDigits [simp]: "length (lowDigits k n) = k"
  by (induction k arbitrary: n) simp_all

lemma less_append_same_length:
  fixes xs ys :: string
  assumes "xs < ys" "length xs = length ys"
  shows "xs @ u < ys @ v"
  using assms unfolding list_less_def by (simp add: lexord_sufI)

lemma less_append_last:
  fixes xs :: string
  shows "c < d \<Longrightarrow> xs @ [c] < xs @ [d]"
  unfolding list_less_def by (simp add: lexord_append_leftI)

lemma lowDigits_mono: "a < b \<Longrightarrow> b < 10 ^ k \<Longrightarrow> lowDigits k a < lowDigits k b"
proof (induction k arbitrary: a b)
  case 0
  then show ?case by simp
next
  case (Suc k)
  from Suc.prems have bk: "b div 10 < 10 ^ k" by (simp add: less_mult_imp_div_less mult.commute)
  from Suc.prems(1) consider "a div 10 < b div 10" | "a div 10 = b div 10" "a mod 10 < b mod 10"
    by (metis div_le_mono less_imp_le_nat linorder_neqE_nat mod_div_decomp nat_add_left_cancel_less not_less)
  then show ?case
  proof cases
    case 1
    from Suc.IH[OF 1 bk] show ?thesis
      by (simp add: less_append_same_length)
  next
    case 2
    then show ?thesis by (simp add: less_append_last digit_less)
  qed
qed

lemma digit_zero: "digit 0 = CHR ''0''"
  unfolding digit_def by (simp only: add_0_right char_of_char)

lemma lowDigits_zero: "lowDigits k 0 = replicate k CHR ''0''"
  by (induction k) (simp_all add: digit_zero replicate_append_same)

lemma length_toString_pos: "0 < length (toString n)"
  by (subst toString.simps) simp

lemma pad_lowDigits:
  "n < 10 ^ k \<Longrightarrow> 0 < k \<Longrightarrow>
   replicate (k - length (toString n)) CHR ''0'' @ toString n = lowDigits k n"
proof (induction k arbitrary: n)
  case 0
  then show ?case by simp
next
  case (Suc k)
  show ?case
  proof (cases "n < 10")
    case True
    then have "toString n = [digit n]" by (subst toString.simps) simp
    with True show ?thesis by (simp add: lowDigits_zero)
  next
    case False
    then have ts: "toString n = toString (n div 10) @ [digit (n mod 10)]"
      by (subst toString.simps) simp
    from False Suc.prems have k: "0 < k" by (cases k) auto
    from Suc.prems have "n div 10 < 10 ^ k" by (simp add: less_mult_imp_div_less mult.commute)
    from Suc.IH[OF this k] show ?thesis by (simp add: ts)
  qed
qed

lemma pad16_lowDigits: "t < 10 ^ 16 \<Longrightarrow> pad16 t = lowDigits 16 t"
  using pad_lowDigits[of t 16] by (simp add: pad16_def)

text \<open>
  Claim C8. For timestamps \<open>a < b\<close> of at most 16 decimal digits the keys
  \<open>'t/' + pad16(a)\<close> and \<open>'t/' + pad16(b)\<close> are in the same order as strings,
  and every such key has 18 characters.
\<close>

theorem timeKey_monotonic:
  assumes "a < b" "b < 10 ^ 16"
  shows "timeKey a < timeKey b \<and> length (timeKey a) = 18 \<and> length (timeKey b) = 18"
proof -
  from assms have a: "a < 10 ^ 16" by simp
  have "lowDigits 16 a < lowDigits 16 b" using assms by (rule lowDigits_mono)
  then have "''t/'' @ lowDigits 16 a < ''t/'' @ lowDigits 16 b"
    unfolding list_less_def by (simp add: lexord_append_leftI)
  then show ?thesis
    using pad16_lowDigits[OF a] pad16_lowDigits[OF assms(2)] by (simp add: timeKey_def)
qed

theorem timeKey_monotonic_witness:
  "(1706744999400::nat) < 1709251199999 \<and>
   timeKey 1706744999400 < timeKey 1709251199999 \<and> length (timeKey 1706744999400) = 18"
  using timeKey_monotonic [of 1706744999400 1709251199999] by simp

section \<open>Properties of the resolvers\<close>









section \<open>Properties of the default mappings\<close>

lemmas mapping_defs = mappedPlan_def newMapping_def mappingsCache_def mappingsDb_def
  mappedMeteringPlan_def mappedRatingPlan_def mappedPricingPlan_def
  newMeteringMapping_def newRatingMapping_def newPricingMapping_def
  dbGet_def dbPut_def did_def Let_def

lemma writes_append [simp]: "writes (xs @ ys) = writes xs @ writes ys"
  by (simp add: writes_def)

lemma count_DbPut_no_writes: "writes xs = [] \<Longrightarrow> count_list xs (DbPut T k) = 0"
  by (induction xs) (auto simp: writes_def split: step.splits if_splits)

lemma tier_all: "(\<forall>T. P T) = (P Metering \<and> P Rating \<and> P Pricing)"
proof
  assume "P Metering \<and> P Rating \<and> P Pricing"
  then show "\<forall>T. P T" by (auto intro: tier.induct)
qed simp

lemma mappedPlan_snd_steps:
  "\<exists>xs. steps (snd (mappedPlan T rt pn s)) = steps s @ xs \<and> writes xs = []"
  by (cases T; simp add: mapping_defs writes_def split: option.split)

lemma mappedPlan_snd_frame:
  "mappingsDb T' (snd (mappedPlan T rt pn s)) = mappingsDb T' s"
  by (cases T; cases T'; simp add: mapping_defs split: option.split)

lemma mappedPlan_snd_cache:
  "mappingsCache T' (snd (mappedPlan T rt pn s)) k =
     (if T' = T \<and> k = mappingId rt pn \<and> \<not> truthy (mappingsCache T s k) \<and>
         unavailable (mappingsDb T s) = None \<and> docs (mappingsDb T s) k \<noteq> None
      then docs (mappingsDb T s) k else mappingsCache T' s k)"
  by (cases T; cases T'; auto simp: mapping_defs split: option.split)

lemma mappedPlan_snd_resolvable:
  "resolvable T' (snd (mappedPlan T rt pn s)) k = resolvable T' s k"
  unfolding resolvable_def mappedPlan_snd_cache mappedPlan_snd_frame by auto

lemma mappedPlan_fst_truthy:
  "resolvable T s (mappingId rt pn) \<Longrightarrow> \<exists>v. fst (mappedPlan T rt pn s) = Inr v \<and> truthy v"
  by (cases T; auto simp: mapping_defs resolvable_def truthy_def split: option.splits)

lemma mappedPlan_fst_falsy:
  "\<not> resolvable T s (mappingId rt pn) \<Longrightarrow> unavailable (mappingsDb T s) = None \<Longrightarrow>
   \<exists>v. fst (mappedPlan T rt pn s) = Inr v \<and> \<not> truthy v"
  by (cases T; auto simp: mapping_defs resolvable_def truthy_def split: option.splits)

lemma newMapping_snd_steps:
  "steps (snd (newMapping T rt pn pid s)) = steps s @ [DbPut T (mappingId rt pn)]"
  by (cases T; simp add: mapping_defs split: option.split)

lemma newMapping_snd_db:
  "mappingsCache T' (snd (newMapping T rt pn pid s)) = mappingsCache T' s"
  "unavailable (mappingsDb T' (snd (newMapping T rt pn pid s))) = unavailable (mappingsDb T' s)"
  "docs (mappingsDb T' (snd (newMapping T rt pn pid s))) k =
     (if T' = T \<and> k = mappingId rt pn \<and> unavailable (mappingsDb T s) = None
      then Some pid else docs (mappingsDb T' s) k)"
  by (cases T; cases T'; simp add: mapping_defs split: option.split)+

lemma newMapping_fst:
  "unavailable (mappingsDb T s) = None \<Longrightarrow> fst (newMapping T rt pn pid s) = None"
  by (cases T; simp add: mapping_defs)

lemma newMapping_snd_resolvable:
  "resolvable T' s k \<Longrightarrow> T' \<noteq> T \<or> k \<noteq> mappingId rt pn \<Longrightarrow>
   resolvable T' (snd (newMapping T rt pn pid s)) k"
  unfolding resolvable_def newMapping_snd_db by auto

lemma storePlans_invariant:
  assumes read: "\<And>pn s r s'. Inv s \<Longrightarrow> readFn rt pn s = (r, s') \<Longrightarrow> Inv s'"
  shows "(\<And>pn pid s0 v s e s'. (pn, pid) \<in> set plans \<Longrightarrow> Inv s0 \<Longrightarrow>
            readFn rt pn s0 = (Inr v, s) \<Longrightarrow> \<not> truthy v \<Longrightarrow>
            createFn rt pn pid s = (e, s') \<Longrightarrow> Inv s') \<Longrightarrow>
         Inv s \<Longrightarrow> Inv (snd (storePlans readFn createFn rt plans s))"
proof (induction plans arbitrary: s)
  case Nil
  then show ?case by simp
next
  case (Cons p plans)
  note create = Cons.prems(1)
  obtain pn pid where p: "p = (pn, pid)" by (cases p)
  have IH: "Inv (snd (storePlans readFn createFn rt plans t))" if "Inv t" for t
  proof (rule Cons.IH)
    show "Inv t" by (rule that)
  next
    fix pn pid s0 v s e s'
    assume "(pn, pid) \<in> set plans" "Inv s0" "readFn rt pn s0 = (Inr v, s)" "\<not> truthy v"
      "createFn rt pn pid s = (e, s')"
    then show "Inv s'" using create[of pn pid s0 v s e s'] by simp
  qed
  obtain r s1 where rd: "readFn rt pn s = (r, s1)" by (cases "readFn rt pn s")
  have i1: "Inv s1" using read[OF Cons.prems(2) rd] .
  show ?case
  proof (cases r)
    case (Inl err)
    with rd p i1 show ?thesis by simp
  next
    case (Inr v)
    show ?thesis
    proof (cases "truthy v")
      case True
      with rd p Inr IH[OF i1] show ?thesis by simp
    next
      case False
      obtain e s2 where cr: "createFn rt pn pid s1 = (e, s2)" by (cases "createFn rt pn pid s1")
      have "(pn, pid) \<in> set (p # plans)" using p by simp
      from create[OF this Cons.prems(2) rd[unfolded Inr] False cr] have i2: "Inv s2" .
      show ?thesis
        using rd p Inr False cr i2 IH[OF i2] by (cases e) simp_all
    qed
  qed
qed

lemma storeTypes_invariant:
  assumes read: "\<And>rt pn s r s'. Inv s \<Longrightarrow> readFn rt pn s = (r, s') \<Longrightarrow> Inv s'"
  shows "(\<And>rt plans pn pid s0 v s e s'. (rt, plans) \<in> set mapping \<Longrightarrow> (pn, pid) \<in> set plans \<Longrightarrow>
            Inv s0 \<Longrightarrow> readFn rt pn s0 = (Inr v, s) \<Longrightarrow> \<not> truthy v \<Longrightarrow>
            createFn rt pn pid s = (e, s') \<Longrightarrow> Inv s') \<Longrightarrow>
         Inv s \<Longrightarrow> Inv (snd (storeTypes readFn createFn mapping s))"
proof (induction mapping arbitrary: s)
  case Nil
  then show ?case by simp
next
  case (Cons m mapping)
  note create = Cons.prems(1)
  obtain rt plans where m: "m = (rt, plans)" by (cases m)
  have IH: "Inv (snd (storeTypes readFn createFn mapping t))" if "Inv t" for t
  proof (rule Cons.IH)
    show "Inv t" by (rule that)
  next
    fix rt plans pn pid s0 v s e s'
    assume "(rt, plans) \<in> set mapping" "(pn, pid) \<in> set plans" "Inv s0"
      "readFn rt pn s0 = (Inr v, s)" "\<not> truthy v" "createFn rt pn pid s = (e, s')"
    then show "Inv s'" using create[of rt plans pn pid s0 v s e s'] by simp
  qed
  obtain e s1 where sp: "storePlans readFn createFn rt plans s = (e, s1)"
    by (cases "storePlans readFn createFn rt plans s")
  have "Inv (snd (storePlans readFn createFn rt plans s))"
  proof (rule storePlans_invariant[where Inv=Inv])
    show "\<And>pn s r s'. Inv s \<Longrightarrow> readFn rt pn s = (r, s') \<Longrightarrow> Inv s'"
      by (rule read)
    show "Inv s" by (rule Cons.prems(2))
  next
    fix pn pid s0 v s e s'
    assume "(pn, pid) \<in> set plans" "Inv s0" "readFn rt pn s0 = (Inr v, s)" "\<not> truthy v"
      "createFn rt pn pid s = (e, s')"
    then show "Inv s'" using create[of rt plans pn pid s0 v s e s'] m by simp
  qed
  then have i1: "Inv s1" using sp by simp
  show ?case using m sp i1 IH[OF i1] by (cases e) simp_all
qed


lemma storePlans_resolved:
  assumes "\<forall>(pn, pid) \<in> set plans. \<forall>s. Inv s \<longrightarrow>
             (\<exists>v s'. readFn rt pn s = (Inr v, s') \<and> truthy v \<and> Inv s')"
    and "Inv s"
  shows "\<exists>s'. storePlans readFn createFn rt plans s = (None, s') \<and> Inv s'"
  using assms
proof (induction plans arbitrary: s)
  case Nil
  then show ?case by simp
next
  case (Cons p plans)
  obtain pn pid where p: "p = (pn, pid)" by (cases p)
  from Cons.prems p obtain v s1
    where rd: "readFn rt pn s = (Inr v, s1)" "truthy v" "Inv s1" by fastforce
  from Cons.prems(1) have rest: "\<forall>(pn, pid) \<in> set plans. \<forall>s. Inv s \<longrightarrow>
             (\<exists>v s'. readFn rt pn s = (Inr v, s') \<and> truthy v \<and> Inv s')"
    by simp
  from Cons.IH[OF rest rd(3)] show ?case using rd p by simp
qed

lemma storeTypes_resolved:
  assumes "\<forall>(rt, plans) \<in> set mapping. \<forall>(pn, pid) \<in> set plans. \<forall>s. Inv s \<longrightarrow>
             (\<exists>v s'. readFn rt pn s = (Inr v, s') \<and> truthy v \<and> Inv s')"
    and "Inv s"
  shows "\<exists>s'. storeTypes readFn createFn mapping s = (None, s') \<and> Inv s'"
  using assms
proof (induction mapping arbitrary: s)
  case Nil
  then show ?case by simp
next
  case (Cons m mapping)
  obtain rt plans where m: "m = (rt, plans)" by (cases m)
  from Cons.prems(1) m have here: "\<forall>(pn, pid) \<in> set plans. \<forall>s. Inv s \<longrightarrow>
             (\<exists>v s'. readFn rt pn s = (Inr v, s') \<and> truthy v \<and> Inv s')"
    by simp
  from storePlans_resolved[where Inv=Inv and readFn=readFn and rt=rt and plans=plans
         and createFn=createFn, OF here Cons.prems(2)]
  obtain s1 where sp: "storePlans readFn createFn rt plans s = (None, s1)" "Inv s1"
    by blast
  from Cons.prems(1) have rest: "\<forall>(rt, plans) \<in> set mapping. \<forall>(pn, pid) \<in> set plans. \<forall>s. Inv s \<longrightarrow>
             (\<exists>v s'. readFn rt pn s = (Inr v, s') \<and> truthy v \<and> Inv s')"
    by simp
  from Cons.IH[OF rest sp(2)] show ?case using m sp by simp
qed

lemma tableEntries_member:
  "(rt, plans) \<in> set mapping \<Longrightarrow> (pn, pid) \<in> set plans \<Longrightarrow>
   mappingId rt pn \<in> fst ` set (tableEntries mapping)"
  by (force simp: tableEntries_def)

lemma passOf_storeDefaultMappings:
  "passOf T (storeDefaultMappings d s) =
     (case storeTypes (mappedPlan T) (newMapping T) (defaultMapping T d) s of
        (Some err, s1) \<Rightarrow> Inl s1
      | (None, s1) \<Rightarrow> Inr s1)"
  by (cases T;
      simp add: passOf_def storeDefaultMappings_def storeMapping_def mappedPlan_def
        newMapping_def defaultMapping_def split: prod.split option.split)

lemma passState_storeDefaultMappings:
  "passState T (storeDefaultMappings d s) =
     snd (storeTypes (mappedPlan T) (newMapping T) (defaultMapping T d) s)"
  by (simp add: passState_def passOf_storeDefaultMappings split: prod.split option.split)

lemma completes_storeDefaultMappings:
  "completes T (storeDefaultMappings d s) =
     (fst (storeTypes (mappedPlan T) (newMapping T) (defaultMapping T d) s) = None)"
  by (simp add: completes_def passOf_storeDefaultMappings split: prod.split option.split)

lemma callbacks_storeDefaultMappings:
  "callbacks (storeDefaultMappings d s) =
     (if \<forall>T. completes T (storeDefaultMappings d s) then 1 else 0)"
  unfolding tier_all completes_storeDefaultMappings
  by (simp add: storeDefaultMappings_def storeMapping_def countCb_def mappedPlan_def
        newMapping_def defaultMapping_def split: prod.split option.split)

lemma untouched_read:
  assumes "untouched T k n v s" "mappedPlan T' rt pn s = (r, s')"
  shows "untouched T k n v s'"
proof -
  have s': "s' = snd (mappedPlan T' rt pn s)" using assms(2) by simp
  from mappedPlan_snd_steps[of T' rt pn s] obtain xs
    where "steps s' = steps s @ xs" "writes xs = []" unfolding s' by blast
  then have "count_list (steps s') (DbPut T k) = count_list (steps s) (DbPut T k)"
    by (simp add: count_DbPut_no_writes)
  then show ?thesis
    using assms(1)
    by (simp add: untouched_def s' mappedPlan_snd_resolvable mappedPlan_snd_frame)
qed

lemma untouched_create:
  assumes u: "untouched T k n v0 s0" and rd: "mappedPlan T' rt pn s0 = (Inr v, s)"
    and falsy: "\<not> truthy v" and cr: "newMapping T' rt pn pid s = (e, s')"
  shows "untouched T k n v0 s'"
proof -
  have other: "T \<noteq> T' \<or> k \<noteq> mappingId rt pn"
  proof (rule ccontr)
    assume "\<not> (T \<noteq> T' \<or> k \<noteq> mappingId rt pn)"
    then have "resolvable T' s0 (mappingId rt pn)" using u by (simp add: untouched_def)
    from mappedPlan_fst_truthy[OF this] rd falsy show False by simp
  qed
  have s': "s' = snd (newMapping T' rt pn pid s)" using cr by simp
  have us: "untouched T k n v0 s" using untouched_read[OF u rd] .
  have "count_list (steps s') (DbPut T k) = count_list (steps s) (DbPut T k)"
    unfolding s' newMapping_snd_steps using other by auto
  moreover have "resolvable T s' k"
    unfolding s' using newMapping_snd_resolvable[of T s k T' rt pn pid] us other
    by (auto simp: untouched_def)
  moreover have "docs (mappingsDb T s') k = docs (mappingsDb T s) k"
    unfolding s' newMapping_snd_db using other by auto
  ultimately show ?thesis using us by (simp add: untouched_def)
qed

lemma untouched_storeTypes:
  assumes "untouched T k n v s"
  shows "untouched T k n v (snd (storeTypes (mappedPlan T') (newMapping T') mapping s))"
proof (rule storeTypes_invariant[where Inv="untouched T k n v"])
  show "\<And>rt pn s r s'. untouched T k n v s \<Longrightarrow> mappedPlan T' rt pn s = (r, s') \<Longrightarrow>
          untouched T k n v s'"
    by (rule untouched_read)
  show "\<And>rt plans pn pid s0 w s e s'. (rt, plans) \<in> set mapping \<Longrightarrow> (pn, pid) \<in> set plans \<Longrightarrow>
          untouched T k n v s0 \<Longrightarrow> mappedPlan T' rt pn s0 = (Inr w, s) \<Longrightarrow>
          \<not> truthy w \<Longrightarrow> newMapping T' rt pn pid s = (e, s') \<Longrightarrow> untouched T k n v s'"
    by (rule untouched_create)
  show "untouched T k n v s" by (rule assms)
qed

lemma settled_read:
  assumes st: "settled T d s0 s"
    and entry: "(rt, plans) \<in> set (defaultMapping T d)" "(pn, pid) \<in> set plans"
  shows "\<exists>v s'. mappedPlan T rt pn s = (Inr v, s') \<and> truthy v \<and> settled T d s0 s'"
proof -
  have "mappingId rt pn \<in> fst ` set (tableEntries (defaultMapping T d))"
    using entry by (rule tableEntries_member)
  with st have "resolvable T s (mappingId rt pn)"
    unfolding settled_def by blast
  from mappedPlan_fst_truthy[OF this] obtain v
    where v: "fst (mappedPlan T rt pn s) = Inr v" "truthy v" by blast
  let ?s' = "snd (mappedPlan T rt pn s)"
  from mappedPlan_snd_steps[of T rt pn s] obtain xs
    where xs: "steps ?s' = steps s @ xs" "writes xs = []" by blast
  from st obtain ys where ys: "steps s = steps s0 @ ys" "writes ys = []"
    by (auto simp: settled_def)
  have "steps ?s' = steps s0 @ (ys @ xs)" "writes (ys @ xs) = []"
    using xs ys by simp_all
  then have "\<exists>zs. steps ?s' = steps s0 @ zs \<and> writes zs = []"
    by blast
  then have "settled T d s0 ?s'"
    using st by (simp add: settled_def mappedPlan_snd_frame mappedPlan_snd_resolvable)
  with v show ?thesis by (metis prod.collapse)
qed

lemma settled_storeTypes:
  assumes "settled T d s0 s"
  shows "\<exists>s'. storeTypes (mappedPlan T) (newMapping T) (defaultMapping T d) s = (None, s') \<and>
              settled T d s0 s'"
proof (rule storeTypes_resolved[where Inv="settled T d s0"])
  show "\<forall>(rt, plans) \<in> set (defaultMapping T d). \<forall>(pn, pid) \<in> set plans.
          \<forall>s. settled T d s0 s \<longrightarrow>
            (\<exists>v s'. mappedPlan T rt pn s = (Inr v, s') \<and> truthy v \<and> settled T d s0 s')"
    using settled_read by blast
  show "settled T d s0 s" by (rule assms)
qed

lemma seededBy_append:
  assumes a: "seededBy T s es1 s1" and b: "seededBy T s1 es2 s2"
  shows "seededBy T s (es1 @ es2) s2"
proof -
  have m: "map_of (es1 @ es2) k = (case map_of es1 k of Some p \<Rightarrow> Some p | None \<Rightarrow> map_of es2 k)"
    for k by (simp add: map_add_def)
  have n: "(map_of es1 k = None) = (k \<notin> fst ` set es1)" for k
    by (simp add: map_of_eq_None_iff)
  from a have a2: "resolvable T s1 k = (resolvable T s k \<or> k \<in> fst ` set es1)"
    and a3: "docs (mappingsDb T s1) k =
             (if resolvable T s k then docs (mappingsDb T s) k
              else case map_of es1 k of Some pid \<Rightarrow> Some pid
                                     | None \<Rightarrow> docs (mappingsDb T s) k)"
    and a4: "count_list (steps s1) (DbPut T k) =
             count_list (steps s) (DbPut T k) +
               (if \<not> resolvable T s k \<and> k \<in> fst ` set es1 then 1 else 0)" for k
    by (simp_all add: seededBy_def)
  from b have b1: "unavailable (mappingsDb T s2) = None"
    and b2: "resolvable T s2 k = (resolvable T s1 k \<or> k \<in> fst ` set es2)"
    and b3: "docs (mappingsDb T s2) k =
             (if resolvable T s1 k then docs (mappingsDb T s1) k
              else case map_of es2 k of Some pid \<Rightarrow> Some pid
                                     | None \<Rightarrow> docs (mappingsDb T s1) k)"
    and b4: "count_list (steps s2) (DbPut T k) =
             count_list (steps s1) (DbPut T k) +
               (if \<not> resolvable T s1 k \<and> k \<in> fst ` set es2 then 1 else 0)" for k
    by (simp_all add: seededBy_def)
  have r: "resolvable T s2 k = (resolvable T s k \<or> k \<in> fst ` set (es1 @ es2))" for k
    unfolding b2 a2 by auto
  have d: "docs (mappingsDb T s2) k =
             (if resolvable T s k then docs (mappingsDb T s) k
              else case map_of (es1 @ es2) k of Some pid \<Rightarrow> Some pid
                                     | None \<Rightarrow> docs (mappingsDb T s) k)" for k
  proof (cases "resolvable T s k")
    case True
    then show ?thesis unfolding b3 a2 a3 by simp
  next
    case False
    show ?thesis
    proof (cases "map_of es1 k")
      case None
      then have "k \<notin> fst ` set es1" using n by simp
      then show ?thesis unfolding b3 a2 a3 m using False None
        by (simp cong: option.case_cong split: option.split)
    next
      case (Some p)
      then have "k \<in> fst ` set es1" using n[of k] by simp
      then show ?thesis unfolding b3 a2 a3 m using False Some
        by (simp cong: option.case_cong split: option.split)
    qed
  qed
  have c: "count_list (steps s2) (DbPut T k) =
             count_list (steps s) (DbPut T k) +
               (if \<not> resolvable T s k \<and> k \<in> fst ` set (es1 @ es2) then 1 else 0)" for k
    unfolding b4 a4 a2 by auto
  show ?thesis unfolding seededBy_def using b1 r d c by blast
qed

lemma seededBy_entry:
  assumes av: "unavailable (mappingsDb T s) = None" and pid: "pid \<noteq> []"
  shows "\<exists>s'. storePlans (mappedPlan T) (newMapping T) rt [(pn, pid)] s = (None, s') \<and>
              seededBy T s [(mappingId rt pn, pid)] s'"
proof -
  define s1 where "s1 = snd (mappedPlan T rt pn s)"
  from mappedPlan_snd_steps[of T rt pn s] obtain xs
    where xs: "steps s1 = steps s @ xs" "writes xs = []" unfolding s1_def by blast
  have c1: "count_list (steps s1) (DbPut T k) = count_list (steps s) (DbPut T k)" for k
    using xs by (simp add: count_DbPut_no_writes)
  have db1: "mappingsDb T s1 = mappingsDb T s" by (simp add: s1_def mappedPlan_snd_frame)
  have r1: "resolvable T s1 k = resolvable T s k" for k
    by (simp add: s1_def mappedPlan_snd_resolvable)
  show ?thesis
  proof (cases "resolvable T s (mappingId rt pn)")
    case True
    from mappedPlan_fst_truthy[OF True] obtain v
      where v: "fst (mappedPlan T rt pn s) = Inr v" "truthy v" by blast
    have rd: "mappedPlan T rt pn s = (Inr v, s1)" using v(1) by (simp add: s1_def prod_eq_iff)
    have "storePlans (mappedPlan T) (newMapping T) rt [(pn, pid)] s = (None, s1)"
      using rd v(2) by simp
    moreover have "seededBy T s [(mappingId rt pn, pid)] s1"
      using True av by (auto simp: seededBy_def c1 db1 r1)
    ultimately show ?thesis by blast
  next
    case False
    from mappedPlan_fst_falsy[OF False av] obtain v
      where v: "fst (mappedPlan T rt pn s) = Inr v" "\<not> truthy v" by blast
    have rd: "mappedPlan T rt pn s = (Inr v, s1)" using v(1) by (simp add: s1_def prod_eq_iff)
    define s2 where "s2 = snd (newMapping T rt pn pid s1)"
    have av1: "unavailable (mappingsDb T s1) = None" using av db1 by simp
    have cr: "newMapping T rt pn pid s1 = (None, s2)"
      using newMapping_fst[OF av1, of rt pn pid] by (simp add: s2_def prod_eq_iff)
    have run: "storePlans (mappedPlan T) (newMapping T) rt [(pn, pid)] s = (None, s2)"
      using rd v(2) cr by simp
    have d2: "docs (mappingsDb T s2) k =
                (if k = mappingId rt pn then Some pid else docs (mappingsDb T s) k)" for k
      unfolding s2_def newMapping_snd_db using av1 db1 by simp
    have av2: "unavailable (mappingsDb T s2) = None"
      unfolding s2_def newMapping_snd_db using av1 .
    have c2: "mappingsCache T s2 = mappingsCache T s1"
      unfolding s2_def newMapping_snd_db ..
    have r2: "resolvable T s2 k = (resolvable T s k \<or> k = mappingId rt pn)" for k
    proof (cases "k = mappingId rt pn")
      case True
      then show ?thesis using pid av2 by (simp add: resolvable_def d2 truthy_def)
    next
      case False
      have "resolvable T s2 k = resolvable T s1 k"
        using False av2 av1 db1 by (simp add: resolvable_def c2 d2)
      then show ?thesis using False r1 by simp
    qed
    have n2: "count_list (steps s2) (DbPut T k) =
                count_list (steps s) (DbPut T k) + (if k = mappingId rt pn then 1 else 0)" for k
      unfolding s2_def newMapping_snd_steps using c1 by simp
    have "seededBy T s [(mappingId rt pn, pid)] s2"
      unfolding seededBy_def using False av2 by (auto simp: r2 d2 n2)
    with run show ?thesis by blast
  qed
qed

lemma seededBy_refl: "unavailable (mappingsDb T s) = None \<Longrightarrow> seededBy T s [] s"
  by (simp add: seededBy_def)

lemma seededBy_available: "seededBy T s es s' \<Longrightarrow> unavailable (mappingsDb T s') = None"
  by (simp add: seededBy_def)

lemma storePlans_single:
  "storePlans readFn createFn rt (p # plans) s =
     (case storePlans readFn createFn rt [p] s of
        (Some err, s1) \<Rightarrow> (Some err, s1)
      | (None, s1) \<Rightarrow> storePlans readFn createFn rt plans s1)"
  by (cases p) (simp split: prod.split sum.split option.split)

lemma storePlans_seeds:
  assumes "unavailable (mappingsDb T s) = None" "\<forall>(pn, pid) \<in> set plans. pid \<noteq> []"
  shows "\<exists>s'. storePlans (mappedPlan T) (newMapping T) rt plans s = (None, s') \<and>
              seededBy T s (map (\<lambda>(pn, pid). (mappingId rt pn, pid)) plans) s'"
  using assms
proof (induction plans arbitrary: s)
  case Nil
  then show ?case by (simp add: seededBy_refl)
next
  case (Cons p plans)
  obtain pn pid where p: "p = (pn, pid)" by (cases p)
  from Cons.prems p have pid: "pid \<noteq> []" by simp
  from seededBy_entry[OF Cons.prems(1) pid, of rt pn] obtain s1
    where one: "storePlans (mappedPlan T) (newMapping T) rt [(pn, pid)] s = (None, s1)"
      and sd1: "seededBy T s [(mappingId rt pn, pid)] s1" by blast
  from Cons.prems(2) have rest: "\<forall>(pn, pid) \<in> set plans. pid \<noteq> []" by simp
  from Cons.IH[OF seededBy_available[OF sd1] rest] obtain s2
    where more: "storePlans (mappedPlan T) (newMapping T) rt plans s1 = (None, s2)"
      and sd2: "seededBy T s1 (map (\<lambda>(pn, pid). (mappingId rt pn, pid)) plans) s2" by blast
  have "storePlans (mappedPlan T) (newMapping T) rt (p # plans) s = (None, s2)"
    unfolding p by (subst storePlans_single) (simp only: one more prod.case option.case)
  moreover have "seededBy T s (map (\<lambda>(pn, pid). (mappingId rt pn, pid)) (p # plans)) s2"
    using seededBy_append[OF sd1 sd2] p by simp
  ultimately show ?case by blast
qed

lemma storeTypes_seeds:
  assumes "unavailable (mappingsDb T s) = None"
    "\<forall>(rt, plans) \<in> set mapping. \<forall>(pn, pid) \<in> set plans. pid \<noteq> []"
  shows "\<exists>s'. storeTypes (mappedPlan T) (newMapping T) mapping s = (None, s') \<and>
              seededBy T s (tableEntries mapping) s'"
  using assms
proof (induction mapping arbitrary: s)
  case Nil
  then show ?case by (simp add: seededBy_refl tableEntries_def)
next
  case (Cons m mapping)
  obtain rt plans where m: "m = (rt, plans)" by (cases m)
  from Cons.prems(2) m have here: "\<forall>(pn, pid) \<in> set plans. pid \<noteq> []" by simp
  from storePlans_seeds[OF Cons.prems(1) here, of rt] obtain s1
    where one: "storePlans (mappedPlan T) (newMapping T) rt plans s = (None, s1)"
      and sd1: "seededBy T s (map (\<lambda>(pn, pid). (mappingId rt pn, pid)) plans) s1" by blast
  from Cons.prems(2) have rest:
    "\<forall>(rt, plans) \<in> set mapping. \<forall>(pn, pid) \<in> set plans. pid \<noteq> []" by simp
  from Cons.IH[OF seededBy_available[OF sd1] rest] obtain s2
    where more: "storeTypes (mappedPlan T) (newMapping T) mapping s1 = (None, s2)"
      and sd2: "seededBy T s1 (tableEntries mapping) s2" by blast
  have "storeTypes (mappedPlan T) (newMapping T) (m # mapping) s = (None, s2)"
    using m one more by simp
  moreover have "seededBy T s (tableEntries (m # mapping)) s2"
    using seededBy_append[OF sd1 sd2] m by (simp add: tableEntries_def)
  ultimately show ?case by blast
qed

lemma tableEntries_plans:
  "(\<forall>(k, pid) \<in> set (tableEntries mapping). pid \<noteq> []) =
   (\<forall>(rt, plans) \<in> set mapping. \<forall>(pn, pid) \<in> set plans. pid \<noteq> [])"
  by (fastforce simp: tableEntries_def)

lemma other_tier_storeTypes:
  assumes "T' \<noteq> T"
  shows "mappingsDb T' (snd (storeTypes (mappedPlan T) (newMapping T) mapping s)) =
           mappingsDb T' s \<and>
         mappingsCache T' (snd (storeTypes (mappedPlan T) (newMapping T) mapping s)) =
           mappingsCache T' s \<and>
         (\<forall>k. count_list (steps (snd (storeTypes (mappedPlan T) (newMapping T) mapping s)))
                (DbPut T' k) = count_list (steps s) (DbPut T' k))"
proof -
  define Inv where "Inv = (\<lambda>s'. mappingsDb T' s' = mappingsDb T' s \<and>
      mappingsCache T' s' = mappingsCache T' s \<and>
      (\<forall>k. count_list (steps s') (DbPut T' k) = count_list (steps s) (DbPut T' k)))"
  have rd: "Inv (snd (mappedPlan T rt pn s0))" if "Inv s0" for rt pn s0
  proof -
    from mappedPlan_snd_steps[of T rt pn s0] obtain xs
      where "steps (snd (mappedPlan T rt pn s0)) = steps s0 @ xs" "writes xs = []" by blast
    then have "count_list (steps (snd (mappedPlan T rt pn s0))) (DbPut T' k) =
                 count_list (steps s0) (DbPut T' k)" for k
      by (simp add: count_DbPut_no_writes)
    moreover have "mappingsCache T' (snd (mappedPlan T rt pn s0)) = mappingsCache T' s0"
      using assms by (intro ext) (simp add: mappedPlan_snd_cache)
    ultimately show ?thesis using that by (simp add: Inv_def mappedPlan_snd_frame)
  qed
  have cr: "Inv (snd (newMapping T rt pn pid s0))" if "Inv s0" for rt pn pid s0
  proof -
    have "mappingsDb T' (snd (newMapping T rt pn pid s0)) = mappingsDb T' s0"
      using assms by (cases T; cases T'; simp add: mapping_defs split: option.split)
    then show ?thesis
      using that assms by (simp add: Inv_def newMapping_snd_db newMapping_snd_steps)
  qed
  have "Inv (snd (storeTypes (mappedPlan T) (newMapping T) mapping s))"
  proof (rule storeTypes_invariant[where Inv=Inv])
    show "\<And>rt pn s r s'. Inv s \<Longrightarrow> mappedPlan T rt pn s = (r, s') \<Longrightarrow> Inv s'"
      using rd by (metis snd_conv)
    show "\<And>rt plans pn pid s0 w s e s'. (rt, plans) \<in> set mapping \<Longrightarrow> (pn, pid) \<in> set plans \<Longrightarrow>
            Inv s0 \<Longrightarrow> mappedPlan T rt pn s0 = (Inr w, s) \<Longrightarrow>
            \<not> truthy w \<Longrightarrow> newMapping T rt pn pid s = (e, s') \<Longrightarrow> Inv s'"
      using rd cr by (metis snd_conv)
    show "Inv s" by (simp add: Inv_def)
  qed
  then show ?thesis by (simp add: Inv_def)
qed


lemma outside_storeTypes:
  assumes "k \<notin> fst ` set (tableEntries mapping)"
  shows "count_list (steps (snd (storeTypes (mappedPlan T) (newMapping T) mapping s))) (DbPut T k) =
           count_list (steps s) (DbPut T k) \<and>
         docs (mappingsDb T (snd (storeTypes (mappedPlan T) (newMapping T) mapping s))) k =
           docs (mappingsDb T s) k"
proof -
  define Inv where "Inv = (\<lambda>s'. count_list (steps s') (DbPut T k) = count_list (steps s) (DbPut T k) \<and>
      docs (mappingsDb T s') k = docs (mappingsDb T s) k)"
  have rd: "Inv (snd (mappedPlan T rt pn s0))" if "Inv s0" for rt pn s0
  proof -
    from mappedPlan_snd_steps[of T rt pn s0] obtain xs
      where "steps (snd (mappedPlan T rt pn s0)) = steps s0 @ xs" "writes xs = []" by blast
    then have "count_list (steps (snd (mappedPlan T rt pn s0))) (DbPut T k) =
                 count_list (steps s0) (DbPut T k)"
      by (simp add: count_DbPut_no_writes)
    then show ?thesis using that by (simp add: Inv_def mappedPlan_snd_frame)
  qed
  have cr: "Inv (snd (newMapping T rt pn pid s0))"
    if "Inv s0" "(rt, plans) \<in> set mapping" "(pn, pid) \<in> set plans" for rt plans pn pid s0
  proof -
    have "k \<noteq> mappingId rt pn" using tableEntries_member[OF that(2,3)] assms by auto
    then show ?thesis using that(1) by (simp add: Inv_def newMapping_snd_db newMapping_snd_steps)
  qed
  have "Inv (snd (storeTypes (mappedPlan T) (newMapping T) mapping s))"
  proof (rule storeTypes_invariant[where Inv=Inv])
    show "\<And>rt pn s r s'. Inv s \<Longrightarrow> mappedPlan T rt pn s = (r, s') \<Longrightarrow> Inv s'"
      using rd by (metis snd_conv)
    show "\<And>rt plans pn pid s0 w s e s'. (rt, plans) \<in> set mapping \<Longrightarrow> (pn, pid) \<in> set plans \<Longrightarrow>
            Inv s0 \<Longrightarrow> mappedPlan T rt pn s0 = (Inr w, s) \<Longrightarrow>
            \<not> truthy w \<Longrightarrow> newMapping T rt pn pid s = (e, s') \<Longrightarrow> Inv s'"
      using rd cr by (metis snd_conv)
    show "Inv s" by (simp add: Inv_def)
  qed
  then show ?thesis by (simp add: Inv_def)
qed

text \<open>
  Claim C9. Each pass of \<open>storeDefaultMappings\<close> writes a mapping only if it is a pair of
  the default table of its tier and not resolvable: a mapping that is resolvable, or that
  is not in the table, is written no more often than before and keeps its document, and a
  resolvable one stays resolvable. A pass writes nothing to the other tiers. If the
  database of the tier is available and no default plan id is empty, the pass completes
  and creates every pair of the table that was not resolvable: afterwards the resolvable
  mappings are those resolvable before and those of the table, each pair that was not
  resolvable has been written exactly once and holds the plan id of the table (the first
  one, if two pairs have the same id), and every other document is as before. The
  completion callback is called once if the three passes complete and not at all
  otherwise. The run is idempotent: when every mapping of the three default tables is
  resolvable, the three passes complete, none of them writes, the databases are as before,
  and the completion callback is called once.
\<close>

theorem storeDefaultMappings_seeds:
  "(let out = storeDefaultMappings d s in
     (\<forall>T k. resolvable T s k \<or> k \<notin> fst ` set (tableEntries (defaultMapping T d)) \<longrightarrow>
        count_list (steps (passState T out)) (DbPut T k) = count_list (steps s) (DbPut T k) \<and>
        docs (mappingsDb T (passState T out)) k = docs (mappingsDb T s) k \<and>
        (resolvable T s k \<longrightarrow> resolvable T (passState T out) k)) \<and>
     (\<forall>T T'. T' \<noteq> T \<longrightarrow>
        mappingsDb T' (passState T out) = mappingsDb T' s \<and>
        mappingsCache T' (passState T out) = mappingsCache T' s \<and>
        (\<forall>k. count_list (steps (passState T out)) (DbPut T' k) =
               count_list (steps s) (DbPut T' k))) \<and>
     (\<forall>T. unavailable (mappingsDb T s) = None \<and>
          (\<forall>(k, pid) \<in> set (tableEntries (defaultMapping T d)). pid \<noteq> []) \<longrightarrow>
        completes T out \<and>
        (\<forall>k. resolvable T (passState T out) k =
               (resolvable T s k \<or> k \<in> fst ` set (tableEntries (defaultMapping T d)))) \<and>
        (\<forall>k. docs (mappingsDb T (passState T out)) k =
               (if resolvable T s k then docs (mappingsDb T s) k
                else case map_of (tableEntries (defaultMapping T d)) k of
                       Some pid \<Rightarrow> Some pid
                     | None \<Rightarrow> docs (mappingsDb T s) k)) \<and>
        (\<forall>k. count_list (steps (passState T out)) (DbPut T k) =
               count_list (steps s) (DbPut T k) +
                 (if \<not> resolvable T s k \<and> k \<in> fst ` set (tableEntries (defaultMapping T d))
                  then 1 else 0))) \<and>
     callbacks out = (if \<forall>T. completes T out then 1 else 0) \<and>
     (allResolvable d s \<longrightarrow>
        (\<forall>T. completes T out \<and>
             writes (steps (passState T out)) = writes (steps s) \<and>
             (\<forall>T'. mappingsDb T' (passState T out) = mappingsDb T' s)) \<and>
        callbacks out = 1))"
proof -
  let ?run = "\<lambda>T. storeTypes (mappedPlan T) (newMapping T) (defaultMapping T d) s"
  have one: "count_list (steps (snd (?run T))) (DbPut T k) = count_list (steps s) (DbPut T k) \<and>
             docs (mappingsDb T (snd (?run T))) k = docs (mappingsDb T s) k \<and>
             (resolvable T s k \<longrightarrow> resolvable T (snd (?run T)) k)"
    if "resolvable T s k \<or> k \<notin> fst ` set (tableEntries (defaultMapping T d))" for T k
  proof (cases "resolvable T s k")
    case True
    then have "untouched T k (count_list (steps s) (DbPut T k)) (docs (mappingsDb T s) k) s"
      by (simp add: untouched_def)
    from untouched_storeTypes[OF this, of T "defaultMapping T d"]
    show ?thesis by (simp add: untouched_def)
  next
    case False
    with that have "k \<notin> fst ` set (tableEntries (defaultMapping T d))" by simp
    from outside_storeTypes[OF this, of T s] False show ?thesis by simp
  qed
  have two: "fst (?run T) = None \<and>
             (\<forall>k. resolvable T (snd (?run T)) k =
                    (resolvable T s k \<or> k \<in> fst ` set (tableEntries (defaultMapping T d)))) \<and>
             (\<forall>k. docs (mappingsDb T (snd (?run T))) k =
                    (if resolvable T s k then docs (mappingsDb T s) k
                     else case map_of (tableEntries (defaultMapping T d)) k of
                            Some pid \<Rightarrow> Some pid
                          | None \<Rightarrow> docs (mappingsDb T s) k)) \<and>
             (\<forall>k. count_list (steps (snd (?run T))) (DbPut T k) =
                    count_list (steps s) (DbPut T k) +
                      (if \<not> resolvable T s k \<and> k \<in> fst ` set (tableEntries (defaultMapping T d))
                       then 1 else 0))"
    if "unavailable (mappingsDb T s) = None"
      "\<forall>(k, pid) \<in> set (tableEntries (defaultMapping T d)). pid \<noteq> []" for T
  proof -
    from that(2) have "\<forall>(rt, plans) \<in> set (defaultMapping T d). \<forall>(pn, pid) \<in> set plans. pid \<noteq> []"
      by (simp only: tableEntries_plans)
    from storeTypes_seeds[OF that(1) this] obtain s'
      where "?run T = (None, s')" "seededBy T s (tableEntries (defaultMapping T d)) s'" by blast
    then show ?thesis by (simp add: seededBy_def)
  qed
  have three: "fst (?run T) = None \<and> writes (steps (snd (?run T))) = writes (steps s) \<and>
               (\<forall>T'. mappingsDb T' (snd (?run T)) = mappingsDb T' s)"
    if "allResolvable d s" for T
  proof -
    from that have "settled T d s s" by (simp add: settled_def allResolvable_def writes_def)
    from settled_storeTypes[OF this] obtain s'
      where r: "?run T = (None, s')" and st: "settled T d s s'" by blast
    from st obtain xs where "steps s' = steps s @ xs" "writes xs = []"
      by (auto simp: settled_def)
    then have "writes (steps s') = writes (steps s)" by simp
    with r st show ?thesis by (simp add: settled_def)
  qed
  have cb: "callbacks (storeDefaultMappings d s) = 1" if "allResolvable d s"
    using three[OF that]
    by (simp add: callbacks_storeDefaultMappings completes_storeDefaultMappings)
  have c1: "\<forall>T k. resolvable T s k \<or> k \<notin> fst ` set (tableEntries (defaultMapping T d)) \<longrightarrow>
        count_list (steps (snd (?run T))) (DbPut T k) = count_list (steps s) (DbPut T k) \<and>
        docs (mappingsDb T (snd (?run T))) k = docs (mappingsDb T s) k \<and>
        (resolvable T s k \<longrightarrow> resolvable T (snd (?run T)) k)"
    using one by (intro allI impI)
  have c2: "\<forall>T T'. T' \<noteq> T \<longrightarrow>
        mappingsDb T' (snd (?run T)) = mappingsDb T' s \<and>
        mappingsCache T' (snd (?run T)) = mappingsCache T' s \<and>
        (\<forall>k. count_list (steps (snd (?run T))) (DbPut T' k) =
               count_list (steps s) (DbPut T' k))"
    using other_tier_storeTypes by (intro allI impI)
  have c3: "\<forall>T. unavailable (mappingsDb T s) = None \<and>
          (\<forall>(k, pid) \<in> set (tableEntries (defaultMapping T d)). pid \<noteq> []) \<longrightarrow>
        fst (?run T) = None \<and>
        (\<forall>k. resolvable T (snd (?run T)) k =
               (resolvable T s k \<or> k \<in> fst ` set (tableEntries (defaultMapping T d)))) \<and>
        (\<forall>k. docs (mappingsDb T (snd (?run T))) k =
               (if resolvable T s k then docs (mappingsDb T s) k
                else case map_of (tableEntries (defaultMapping T d)) k of
                       Some pid \<Rightarrow> Some pid
                     | None \<Rightarrow> docs (mappingsDb T s) k)) \<and>
        (\<forall>k. count_list (steps (snd (?run T))) (DbPut T k) =
               count_list (steps s) (DbPut T k) +
                 (if \<not> resolvable T s k \<and> k \<in> fst ` set (tableEntries (defaultMapping T d))
                  then 1 else 0))"
  proof (intro allI impI)
    fix T
    assume "unavailable (mappingsDb T s) = None \<and>
          (\<forall>(k, pid) \<in> set (tableEntries (defaultMapping T d)). pid \<noteq> [])"
    then show "fst (?run T) = None \<and>
        (\<forall>k. resolvable T (snd (?run T)) k =
               (resolvable T s k \<or> k \<in> fst ` set (tableEntries (defaultMapping T d)))) \<and>
        (\<forall>k. docs (mappingsDb T (snd (?run T))) k =
               (if resolvable T s k then docs (mappingsDb T s) k
                else case map_of (tableEntries (defaultMapping T d)) k of
                       Some pid \<Rightarrow> Some pid
                     | None \<Rightarrow> docs (mappingsDb T s) k)) \<and>
        (\<forall>k. count_list (steps (snd (?run T))) (DbPut T k) =
               count_list (steps s) (DbPut T k) +
                 (if \<not> resolvable T s k \<and> k \<in> fst ` set (tableEntries (defaultMapping T d))
                  then 1 else 0))"
      using two[of T] by (elim conjE)
  qed
  have c5: "allResolvable d s \<longrightarrow>
        (\<forall>T. fst (?run T) = None \<and>
             writes (steps (snd (?run T))) = writes (steps s) \<and>
             (\<forall>T'. mappingsDb T' (snd (?run T)) = mappingsDb T' s)) \<and>
        callbacks (storeDefaultMappings d s) = 1"
  proof (rule impI)
    assume a: "allResolvable d s"
    have "\<forall>T. fst (?run T) = None \<and>
             writes (steps (snd (?run T))) = writes (steps s) \<and>
             (\<forall>T'. mappingsDb T' (snd (?run T)) = mappingsDb T' s)"
      by (intro allI three[OF a])
    from this cb[OF a]
    show "(\<forall>T. fst (?run T) = None \<and>
             writes (steps (snd (?run T))) = writes (steps s) \<and>
             (\<forall>T'. mappingsDb T' (snd (?run T)) = mappingsDb T' s)) \<and>
        callbacks (storeDefaultMappings d s) = 1"
      by (rule conjI)
  qed
  note c4 = callbacks_storeDefaultMappings[of d s, unfolded completes_storeDefaultMappings]
  show ?thesis
    unfolding Let_def passState_storeDefaultMappings completes_storeDefaultMappings
    by (intro conjI c1 c2 c3 c4 c5)
qed

theorem storeDefaultMappings_seeds_witness:
  "(\<forall>T. \<not> resolvable T emptyMappings ''k/object-storage/basic'' \<and>
        unavailable (mappingsDb T emptyMappings) = None \<and>
        completes T (storeDefaultMappings exampleDefaults emptyMappings) \<and>
        docs (mappingsDb T (passState T (storeDefaultMappings exampleDefaults emptyMappings)))
          ''k/object-storage/basic'' = Some ''basic-object-storage'' \<and>
        docs (mappingsDb T (passState T (storeDefaultMappings exampleDefaults emptyMappings)))
          ''k/object-storage/standard'' = None \<and>
        count_list (steps (passState T (storeDefaultMappings exampleDefaults emptyMappings)))
          (DbPut T ''k/object-storage/basic'') = 1 \<and>
        count_list (steps (passState T (storeDefaultMappings exampleDefaults emptyMappings)))
          (DbPut T ''k/object-storage/standard'') = 0 \<and>
        resolvable T (passState T (storeDefaultMappings exampleDefaults emptyMappings))
          ''k/object-storage/basic'') \<and>
   mappingsDb Rating (passState Metering (storeDefaultMappings exampleDefaults emptyMappings)) =
     emptyStore \<and>
   callbacks (storeDefaultMappings exampleDefaults emptyMappings) = 1 \<and>
   allResolvable exampleDefaults seededMappings \<and>
   (\<forall>T. completes T (storeDefaultMappings exampleDefaults seededMappings) \<and>
        writes (steps (passState T (storeDefaultMappings exampleDefaults seededMappings))) = [] \<and>
        count_list (steps (passState T (storeDefaultMappings exampleDefaults seededMappings)))
          (DbPut T ''k/object-storage/basic'') = 0 \<and>
        mappingsDb T (passState T (storeDefaultMappings exampleDefaults seededMappings)) =
          seededStore) \<and>
   callbacks (storeDefaultMappings exampleDefaults seededMappings) = 1 \<and>
   unavailable (mappingsDb Rating brokenMappings) = Some (Error ''unavailable'') \<and>
   \<not> completes Rating (storeDefaultMappings exampleDefaults brokenMappings) \<and>
   completes Metering (storeDefaultMappings exampleDefaults brokenMappings) \<and>
   docs (mappingsDb Metering (passState Metering (storeDefaultMappings exampleDefaults brokenMappings)))
     ''k/object-storage/basic'' = Some ''basic-object-storage'' \<and>
   callbacks (storeDefaultMappings exampleDefaults brokenMappings) = 0"
proof -
  let ?k = "''k/object-storage/basic''"
  have tab: "tableEntries (defaultMapping T exampleDefaults) = [(?k, ''basic-object-storage'')]"
    for T
    by (cases T; simp add: tableEntries_def defaultMapping_def exampleDefaults_def
          exampleTable_def mappingId_def)
  have ids: "fst ` set (tableEntries (defaultMapping T exampleDefaults)) = {?k}" for T
    by (simp add: tab)
  have pids: "\<forall>(k, pid) \<in> set (tableEntries (defaultMapping T exampleDefaults)). pid \<noteq> []" for T
    by (simp add: tab)
  have av: "unavailable (mappingsDb T emptyMappings) = None" for T
    by (cases T; simp add: mappingsDb_def emptyMappings_def emptyStore_def)
  have nres: "\<not> resolvable T emptyMappings k" for T k
    by (cases T; simp add: resolvable_def mappingsCache_def mappingsDb_def emptyMappings_def
          emptyStore_def truthy_def)
  have e0: "steps emptyMappings = []" "docs (mappingsDb T emptyMappings) k = None"
    "mappingsDb Rating emptyMappings = emptyStore" for T k
    by (cases T; simp add: mappingsDb_def emptyMappings_def emptyStore_def)+
  have res: "resolvable T seededMappings ?k" for T
    by (cases T; simp add: resolvable_def mappingsCache_def mappingsDb_def seededMappings_def
          seededStore_def emptyMappings_def truthy_def)
  have s0: "steps seededMappings = []" "mappingsDb T seededMappings = seededStore" for T
    by (cases T; simp add: seededMappings_def emptyMappings_def mappingsDb_def)+
  have a: "allResolvable exampleDefaults seededMappings"
    unfolding allResolvable_def ids using res by simp
  have bav: "unavailable (mappingsDb Metering brokenMappings) = None"
    "unavailable (mappingsDb Pricing brokenMappings) = None"
    "unavailable (mappingsDb Rating brokenMappings) = Some (Error ''unavailable'')"
    by (simp_all add: mappingsDb_def brokenMappings_def emptyMappings_def emptyStore_def)
  have bres: "\<not> resolvable Metering brokenMappings ?k"
    by (simp add: resolvable_def mappingsCache_def mappingsDb_def brokenMappings_def
          emptyMappings_def emptyStore_def truthy_def)

  note first = storeDefaultMappings_seeds [of exampleDefaults emptyMappings, unfolded Let_def]
  note f2 = first[THEN conjunct2, THEN conjunct1, rule_format]
  note f3 = first[THEN conjunct2, THEN conjunct2, THEN conjunct1, rule_format]
  note f4 = first[THEN conjunct2, THEN conjunct2, THEN conjunct2, THEN conjunct1]
  have f: "completes T (storeDefaultMappings exampleDefaults emptyMappings) \<and>
        docs (mappingsDb T (passState T (storeDefaultMappings exampleDefaults emptyMappings)))
          ?k = Some ''basic-object-storage'' \<and>
        docs (mappingsDb T (passState T (storeDefaultMappings exampleDefaults emptyMappings)))
          ''k/object-storage/standard'' = None \<and>
        count_list (steps (passState T (storeDefaultMappings exampleDefaults emptyMappings)))
          (DbPut T ?k) = 1 \<and>
        count_list (steps (passState T (storeDefaultMappings exampleDefaults emptyMappings)))
          (DbPut T ''k/object-storage/standard'') = 0 \<and>
        resolvable T (passState T (storeDefaultMappings exampleDefaults emptyMappings)) ?k" for T
    using f3[of T] av[of T] pids[of T] by (simp add: nres e0 tab)
  have fr: "mappingsDb Rating (passState Metering (storeDefaultMappings exampleDefaults emptyMappings)) =
     emptyStore"
    using f2[of Rating Metering] by (simp add: e0)
  have fc: "callbacks (storeDefaultMappings exampleDefaults emptyMappings) = 1"
    using f4 f by simp

  note second = storeDefaultMappings_seeds [of exampleDefaults seededMappings, unfolded Let_def]
  note g1 = second[THEN conjunct1, rule_format]
  note g5 = second[THEN conjunct2, THEN conjunct2, THEN conjunct2, THEN conjunct2, rule_format]
  have g: "completes T (storeDefaultMappings exampleDefaults seededMappings) \<and>
        writes (steps (passState T (storeDefaultMappings exampleDefaults seededMappings))) = [] \<and>
        count_list (steps (passState T (storeDefaultMappings exampleDefaults seededMappings)))
          (DbPut T ?k) = 0 \<and>
        mappingsDb T (passState T (storeDefaultMappings exampleDefaults seededMappings)) =
          seededStore" for T
    using g5[OF a] g1[of T ?k] res[of T] by (simp add: s0 writes_def)
  have gc: "callbacks (storeDefaultMappings exampleDefaults seededMappings) = 1"
    using g5[OF a] by simp

  note third = storeDefaultMappings_seeds [of exampleDefaults brokenMappings, unfolded Let_def]
  note h3 = third[THEN conjunct2, THEN conjunct2, THEN conjunct1, rule_format]
  note h4 = third[THEN conjunct2, THEN conjunct2, THEN conjunct2, THEN conjunct1]
  have hr: "\<not> completes Rating (storeDefaultMappings exampleDefaults brokenMappings)"
    by (simp add: completes_def passOf_def storeDefaultMappings_def storeMapping_def
          exampleDefaults_def exampleTable_def brokenMappings_def emptyMappings_def
          emptyStore_def mappedRatingPlan_def mappedMeteringPlan_def mappedPricingPlan_def
          newMeteringMapping_def newRatingMapping_def newPricingMapping_def
          dbGet_def dbPut_def did_def truthy_def countCb_def mappingId_def Let_def)
  have hm: "completes Metering (storeDefaultMappings exampleDefaults brokenMappings) \<and>
     docs (mappingsDb Metering (passState Metering (storeDefaultMappings exampleDefaults brokenMappings)))
       ?k = Some ''basic-object-storage''"
    using h3[of Metering] bav(1) pids[of Metering] bres by (simp add: tab)
  have hc: "callbacks (storeDefaultMappings exampleDefaults brokenMappings) = 0"
    using h4 hr by auto
  show ?thesis
    using f fr fc a g gc bav(3) hr hm hc nres av by simp
qed

end
